theory Spec2Isabelle
  imports Main
begin

section \<open>The model fallback engine (ai-service, generateWithFallback)\<close>

text \<open>
  A JavaScript string is a sequence of UTF-16 code units; \<open>u\<close> turns an ASCII literal into
  one.
\<close>

type_synonym ustring = "nat list"

definition u :: "string \<Rightarrow> ustring" where
  "u s = map of_char s"

text \<open>\<open>String.prototype.startsWith\<close> and \<open>String.prototype.includes\<close>.\<close>

definition startsWith :: "ustring \<Rightarrow> ustring \<Rightarrow> bool" where
  "startsWith text pat = (take (length pat) text = pat)"

fun includesStr :: "ustring \<Rightarrow> ustring \<Rightarrow> bool" where
  "includesStr [] pat = (pat = [])"
| "includesStr (c # cs) pat = (startsWith (c # cs) pat \<or> includesStr cs pat)"

definition MODELS :: "ustring list" where
  "MODELS =
     [u ''gemini-1.5-flash-latest'',
      u ''gemini-flash-lite-latest'',
      u ''gemini-flash-latest'',
      u ''gemini-2.0-flash-exp'',
      u ''gemini-2.0-flash-lite'',
      u ''gemini-1.5-pro-latest'',
      u ''gemini-2.0-pro-exp'']"

text \<open>
  What \<open>model.generateContent\<close> throws: an error with a \<open>message\<close> and, when the error
  carries a \<open>response\<close>, its \<open>status\<close>. One call either returns a result or throws.
\<close>

record provider_error =
  message :: ustring
  status :: "nat option"

datatype 'r outcome =
  Returned 'r
  | Threw provider_error

text \<open>
  What the service itself throws: \<open>Error m\<close> is \<open>new Error(m)\<close>; \<open>SyntaxError\<close> and
  \<open>TypeError\<close> are raised by the engine (by \<open>JSON.parse\<close>, by a call of something that is
  not a function) with the engine's own wording; \<open>Wrapped prefix e\<close> is the
  \<open>new Error(prefix + e.message)\<close> of a \<open>catch\<close> block that rethrows \<open>e\<close>.
\<close>

datatype js_error =
  Error ustring
  | SyntaxError
  | TypeError
  | Wrapped ustring js_error

definition isQuotaError :: "provider_error \<Rightarrow> bool" where
  "isQuotaError error = (includesStr (message error) (u ''429'') \<or> status error = Some 429)"

definition isOverloaded :: "provider_error \<Rightarrow> bool" where
  "isOverloaded error =
     (includesStr (message error) (u ''503'') \<or> includesStr (message error) (u ''overloaded''))"

text \<open>
  The inner \<open>for (let attempt = 1; attempt <= 3; attempt++)\<close> loop for one model. The
  provider's answers are a sequence of per-call outcomes: \<open>provider 0\<close> answers the next call,
  \<open>provider \<circ> Suc\<close> are the answers after it. The loop ends by \<open>return result\<close>, by
  \<open>throw error\<close>, or by running past the last attempt. Beside the way it ends, the model
  gives the calls made, each with its model name and attempt number. The wait before a retry
  (\<open>sleep(waitTime)\<close>) is a delay only and is left out.
\<close>

datatype 'r attempts_end =
  Return 'r
  | Throw provider_error
  | Exit

function attemptLoop ::
  "(nat \<Rightarrow> 'r outcome) \<Rightarrow> ustring \<Rightarrow> nat \<Rightarrow> 'r attempts_end \<times> (ustring \<times> nat) list" where
  "attemptLoop provider modelName attempt =
     (if attempt \<le> 3 then
        (case provider 0 of
           Returned result \<Rightarrow> (Return result, [(modelName, attempt)])
         | Threw error \<Rightarrow>
             (if (isQuotaError error \<or> isOverloaded error) \<and> attempt < 3
              then (let (fin, calls) = attemptLoop (provider \<circ> Suc) modelName (attempt + 1)
                    in (fin, (modelName, attempt) # calls))
              else (Throw error, [(modelName, attempt)])))
      else (Exit, []))"
  by pat_completeness auto
termination
  by (relation "measure (\<lambda>(provider, modelName, attempt). 4 - attempt)") auto

text \<open>
  The outer \<open>for (const modelName of MODELS)\<close> loop with its \<open>try/catch\<close>, and the final
  \<open>throw new Error(`All models failed. Last error: ...`)\<close>.
\<close>

fun modelLoop ::
  "(nat \<Rightarrow> 'r outcome) \<Rightarrow> ustring list \<Rightarrow> provider_error option
     \<Rightarrow> (js_error + 'r) \<times> (ustring \<times> nat) list" where
  "modelLoop provider [] lastError =
     (Inl (Error (u ''All models failed. Last error: '' @
                  (case lastError of Some e \<Rightarrow> message e | None \<Rightarrow> u ''Unknown error''))),
      [])"
| "modelLoop provider (modelName # rest) lastError =
     (case attemptLoop provider modelName 1 of
        (Return result, calls) \<Rightarrow> (Inr result, calls)
      | (Throw error, calls) \<Rightarrow>
          (let (res, calls') = modelLoop (\<lambda>k. provider (length calls + k)) rest (Some error)
           in (res, calls @ calls'))
      | (Exit, calls) \<Rightarrow>
          (let (res, calls') = modelLoop (\<lambda>k. provider (length calls + k)) rest lastError
           in (res, calls @ calls')))"

definition generateWithFallback ::
  "(nat \<Rightarrow> 'r outcome) \<Rightarrow> (js_error + 'r) \<times> (ustring \<times> nat) list" where
  "generateWithFallback provider = modelLoop provider MODELS None"

text \<open>
  Vocabulary for stating the engine's behaviour. An error is transient when the source
  classifies it as a quota or an overload error. \<open>runShape ms ks\<close> is the call log in which
  the first models of \<open>ms\<close> are called in order, the j-th one \<open>ks ! j\<close> times with attempt
  numbers 1, 2, ... . \<open>followsFailure e c c'\<close> says what call \<open>c'\<close> may follow a call \<open>c\<close>
  that failed with \<open>e\<close>: the same model with the next attempt number when \<open>e\<close> is transient
  and \<open>c\<close> was not the third attempt, and otherwise a first attempt (of the next model).
\<close>

definition transient :: "provider_error \<Rightarrow> bool" where
  "transient e = (isQuotaError e \<or> isOverloaded e)"

definition runShape :: "ustring list \<Rightarrow> nat list \<Rightarrow> (ustring \<times> nat) list" where
  "runShape ms ks = concat (map2 (\<lambda>m k. map (Pair m) [1..<Suc k]) ms ks)"

definition followsFailure :: "provider_error \<Rightarrow> ustring \<times> nat \<Rightarrow> ustring \<times> nat \<Rightarrow> bool" where
  "followsFailure e c c' =
     (if transient e \<and> snd c < 3 then c' = (fst c, Suc (snd c)) else snd c' = 1)"

section \<open>JSON values and \<open>JSON.parse\<close>\<close>

text \<open>
  \<open>JSON.parse\<close> is the engine's, not the repository's. It is modelled from the JSON grammar
  (ECMA-404) in two passes: a tokenizer that reads one code unit at a time, and a parser that
  reads one token at a time with an explicit stack of open arrays and objects. Both are total;
  \<open>None\<close> stands for the \<open>SyntaxError\<close>. A number keeps its literal text (the rounding to
  a double is not modelled); an object keeps its members in source order, duplicates included.

  The tokenizer collects a maximal run of letters, digits, signs and dots (\<open>isWordChar\<close>) and
  accepts it when the whole run is \<open>true\<close>, \<open>false\<close>, \<open>null\<close> or a number of the grammar:
  in a JSON text a literal name or a number is always followed by white space, a comma, a
  closing bracket or brace, or the end. Inside a string, a control code unit below 32 is an
  error and \<open>\uXXXX\<close> gives the code unit with that hexadecimal value.
\<close>

datatype json =
  JNull
  | JBool bool
  | JNumber ustring
  | JString ustring
  | JArray "json list"
  | JObject "(ustring \<times> json) list"

datatype token =
  TLBrace | TRBrace | TLBracket | TRBracket | TColon | TComma
  | TString ustring | TNumber ustring | TTrue | TFalse | TNull

definition isDigit :: "nat \<Rightarrow> bool" where
  "isDigit c = (48 \<le> c \<and> c \<le> 57)"

definition isJsonWhitespace :: "nat \<Rightarrow> bool" where
  "isJsonWhitespace c = (c = 32 \<or> c = 9 \<or> c = 10 \<or> c = 13)"

definition isWordChar :: "nat \<Rightarrow> bool" where
  "isWordChar c = (isDigit c \<or> (65 \<le> c \<and> c \<le> 90) \<or> (97 \<le> c \<and> c \<le> 122)
                    \<or> c = 43 \<or> c = 45 \<or> c = 46)"

definition hexValue :: "nat \<Rightarrow> nat option" where
  "hexValue c =
     (if 48 \<le> c \<and> c \<le> 57 then Some (c - 48)
      else if 65 \<le> c \<and> c \<le> 70 then Some (c - 55)
      else if 97 \<le> c \<and> c \<le> 102 then Some (c - 87)
      else None)"

definition validExponent :: "ustring \<Rightarrow> bool" where
  "validExponent w =
     (case w of
        [] \<Rightarrow> True
      | e # r \<Rightarrow> (e = 101 \<or> e = 69)
                 \<and> (let ds = (case r of [] \<Rightarrow> [] | s # r' \<Rightarrow> if s = 43 \<or> s = 45 then r' else r)
                    in ds \<noteq> [] \<and> list_all isDigit ds))"

definition validInteger :: "ustring \<Rightarrow> bool" where
  "validInteger ds = (case ds of [] \<Rightarrow> False | d # r \<Rightarrow> if d = 48 then r = [] else True)"

definition isJsonNumber :: "ustring \<Rightarrow> bool" where
  "isJsonNumber w =
     (let w1 = (case w of [] \<Rightarrow> [] | s # r \<Rightarrow> if s = 45 then r else w);
          ip = takeWhile isDigit w1;
          r1 = dropWhile isDigit w1
      in validInteger ip
         \<and> (case r1 of
               [] \<Rightarrow> True
             | d # r2 \<Rightarrow>
                 if d = 46
                 then takeWhile isDigit r2 \<noteq> [] \<and> validExponent (dropWhile isDigit r2)
                 else validExponent r1))"

definition wordToken :: "ustring \<Rightarrow> token option" where
  "wordToken w =
     (if w = u ''true'' then Some TTrue
      else if w = u ''false'' then Some TFalse
      else if w = u ''null'' then Some TNull
      else if isJsonNumber w then Some (TNumber w)
      else None)"

datatype lexstate =
  LStart "token list"
  | LString "token list" ustring
  | LEscape "token list" ustring
  | LUnicode "token list" ustring "nat list"
  | LWord "token list" ustring
  | LError

definition startStep :: "token list \<Rightarrow> nat \<Rightarrow> lexstate" where
  "startStep ts c =
     (if isJsonWhitespace c then LStart ts
      else if c = 123 then LStart (ts @ [TLBrace])
      else if c = 125 then LStart (ts @ [TRBrace])
      else if c = 91 then LStart (ts @ [TLBracket])
      else if c = 93 then LStart (ts @ [TRBracket])
      else if c = 58 then LStart (ts @ [TColon])
      else if c = 44 then LStart (ts @ [TComma])
      else if c = 34 then LString ts []
      else if isWordChar c then LWord ts [c]
      else LError)"

definition escapeStep :: "token list \<Rightarrow> ustring \<Rightarrow> nat \<Rightarrow> lexstate" where
  "escapeStep ts acc c =
     (if c = 34 then LString ts (acc @ [34])
      else if c = 92 then LString ts (acc @ [92])
      else if c = 47 then LString ts (acc @ [47])
      else if c = 98 then LString ts (acc @ [8])
      else if c = 102 then LString ts (acc @ [12])
      else if c = 110 then LString ts (acc @ [10])
      else if c = 114 then LString ts (acc @ [13])
      else if c = 116 then LString ts (acc @ [9])
      else if c = 117 then LUnicode ts acc []
      else LError)"

fun lexStep :: "lexstate \<Rightarrow> nat \<Rightarrow> lexstate" where
  "lexStep (LStart ts) c = startStep ts c"
| "lexStep (LString ts acc) c =
     (if c = 34 then LStart (ts @ [TString acc])
      else if c = 92 then LEscape ts acc
      else if c < 32 then LError
      else LString ts (acc @ [c]))"
| "lexStep (LEscape ts acc) c = escapeStep ts acc c"
| "lexStep (LUnicode ts acc hs) c =
     (case hexValue c of
        None \<Rightarrow> LError
      | Some h \<Rightarrow>
          if length hs = 3
          then LString ts (acc @ [foldl (\<lambda>v d. 16 * v + d) 0 (hs @ [h])])
          else LUnicode ts acc (hs @ [h]))"
| "lexStep (LWord ts w) c =
     (if isWordChar c then LWord ts (w @ [c])
      else (case wordToken w of None \<Rightarrow> LError | Some t \<Rightarrow> startStep (ts @ [t]) c))"
| "lexStep LError c = LError"

fun lexFinish :: "lexstate \<Rightarrow> token list option" where
  "lexFinish (LStart ts) = Some ts"
| "lexFinish (LWord ts w) = (case wordToken w of None \<Rightarrow> None | Some t \<Rightarrow> Some (ts @ [t]))"
| "lexFinish s = None"

definition tokenize :: "ustring \<Rightarrow> token list option" where
  "tokenize text = lexFinish (foldl lexStep (LStart []) text)"

datatype frame =
  FArray "json list"
  | FObject "(ustring \<times> json) list"
  | FMember "(ustring \<times> json) list" ustring

datatype pstate =
  PValue "frame list"
  | PValueOrClose "frame list"
  | PKeyOrClose "frame list"
  | PKey "frame list"
  | PColon "frame list"
  | PNext "frame list"
  | PDone json
  | PError

fun place :: "json \<Rightarrow> frame list \<Rightarrow> pstate" where
  "place v [] = PDone v"
| "place v (FArray xs # st) = PNext (FArray (xs @ [v]) # st)"
| "place v (FMember ps k # st) = PNext (FObject (ps @ [(k, v)]) # st)"
| "place v (FObject ps # st) = PError"

fun valueStep :: "frame list \<Rightarrow> token \<Rightarrow> pstate" where
  "valueStep st TLBracket = PValueOrClose (FArray [] # st)"
| "valueStep st TLBrace = PKeyOrClose (FObject [] # st)"
| "valueStep st (TString s) = place (JString s) st"
| "valueStep st (TNumber n) = place (JNumber n) st"
| "valueStep st TTrue = place (JBool True) st"
| "valueStep st TFalse = place (JBool False) st"
| "valueStep st TNull = place JNull st"
| "valueStep st t = PError"

fun parseStep :: "pstate \<Rightarrow> token \<Rightarrow> pstate" where
  "parseStep (PValue st) t = valueStep st t"
| "parseStep (PValueOrClose (FArray xs # st)) TRBracket = place (JArray xs) st"
| "parseStep (PValueOrClose st) t = valueStep st t"
| "parseStep (PKeyOrClose (FObject ps # st)) TRBrace = place (JObject ps) st"
| "parseStep (PKeyOrClose (FObject ps # st)) (TString k) = PColon (FMember ps k # st)"
| "parseStep (PKey (FObject ps # st)) (TString k) = PColon (FMember ps k # st)"
| "parseStep (PColon st) TColon = PValue st"
| "parseStep (PNext (FArray xs # st)) TComma = PValue (FArray xs # st)"
| "parseStep (PNext (FArray xs # st)) TRBracket = place (JArray xs) st"
| "parseStep (PNext (FObject ps # st)) TComma = PKey (FObject ps # st)"
| "parseStep (PNext (FObject ps # st)) TRBrace = place (JObject ps) st"
| "parseStep s t = PError"

definition parseTokens :: "token list \<Rightarrow> json option" where
  "parseTokens ts = (case foldl parseStep (PValue []) ts of PDone v \<Rightarrow> Some v | _ \<Rightarrow> None)"

definition JSON_parse :: "ustring \<Rightarrow> json option" where
  "JSON_parse text = (case tokenize text of None \<Rightarrow> None | Some ts \<Rightarrow> parseTokens ts)"

section \<open>Response sanitizing (ai-service, cleanJSONResponse)\<close>

text \<open>
  \<open>String.prototype.trim\<close> removes the white space and line terminator code units of
  ECMAScript from both ends. \<open>removeFences marker\<close> is the global replacement of the marker,
  together with one line feed when one follows it, by the empty string: the two calls
  \<open>text.replace(/```json\n?/g, '').replace(/```\n?/g, '')\<close>. \<open>escapeBackslashes\<close> is the
  global replacement of the regular expression \<open>/\\(?![bfnrtu"\/]|u[0-9a-fA-F]{4})/g\<close> by two
  backslashes: a backslash is doubled unless the lookahead, \<open>escapeLookahead\<close>, matches what
  follows it; the lookahead's two alternatives are the character class and \<open>u\<close> followed by
  four hexadecimal digits. \<open>lastIndexOf\<close> gives the index of the last occurrence, or -1;
  \<open>matchCount c\<close> is \<open>(text.match(/c/g) || []).length\<close>. \<open>repairTruncated\<close> is the body of
  the \<open>if (!text.endsWith(']') && !text.endsWith('}'))\<close> block, with its two \<open>for\<close> loops as
  \<open>appendLoop\<close>.
\<close>

definition isJsWhitespace :: "nat \<Rightarrow> bool" where
  "isJsWhitespace c =
     (c = 9 \<or> c = 10 \<or> c = 11 \<or> c = 12 \<or> c = 13 \<or> c = 32 \<or> c = 160 \<or> c = 5760
      \<or> (8192 \<le> c \<and> c \<le> 8202) \<or> c = 8232 \<or> c = 8233 \<or> c = 8239 \<or> c = 8287
      \<or> c = 12288 \<or> c = 65279)"

definition trim :: "ustring \<Rightarrow> ustring" where
  "trim text = rev (dropWhile isJsWhitespace (rev (dropWhile isJsWhitespace text)))"

function removeFences :: "ustring \<Rightarrow> ustring \<Rightarrow> ustring" where
  "removeFences marker text =
     (if text = [] then []
      else if marker \<noteq> [] \<and> startsWith text marker
      then removeFences marker
             (case drop (length marker) text of
                [] \<Rightarrow> []
              | c # rest \<Rightarrow> if c = 10 then rest else c # rest)
      else hd text # removeFences marker (tl text))"
  by pat_completeness auto
termination
proof (relation "measure (\<lambda>(marker, text). length text)")
  show "wf (measure (\<lambda>(marker, text). length text))" by simp
next
  fix marker tx :: ustring
  assume "tx \<noteq> []" and m: "marker \<noteq> [] \<and> startsWith tx marker"
  have shorter: "length (drop (length marker) tx) < length tx"
    using m \<open>tx \<noteq> []\<close> by (cases marker; cases tx) auto
  show "((marker, case drop (length marker) tx of [] \<Rightarrow> []
                  | c # rest \<Rightarrow> if c = 10 then rest else c # rest),
         marker, tx) \<in> measure (\<lambda>(marker, text). length text)"
  proof (cases "drop (length marker) tx")
    case Nil
    with \<open>tx \<noteq> []\<close> show ?thesis by simp
  next
    case (Cons c rest)
    with shorter have "Suc (length rest) < length tx" by (simp del: length_drop)
    with Cons show ?thesis by simp
  qed
next
  fix marker tx :: ustring
  assume "tx \<noteq> []"
  then show "((marker, tl tx), marker, tx) \<in> measure (\<lambda>(marker, text). length text)"
    by (cases tx) auto
qed

definition escapeLookahead :: "ustring \<Rightarrow> bool" where
  "escapeLookahead rest =
     (case rest of
        [] \<Rightarrow> False
      | c # cs \<Rightarrow>
          (c = 98 \<or> c = 102 \<or> c = 110 \<or> c = 114 \<or> c = 116 \<or> c = 117 \<or> c = 34 \<or> c = 47)
          \<or> (c = 117 \<and> 4 \<le> length cs \<and> list_all (\<lambda>h. hexValue h \<noteq> None) (take 4 cs)))"

fun escapeBackslashes :: "ustring \<Rightarrow> ustring" where
  "escapeBackslashes [] = []"
| "escapeBackslashes (c # cs) =
     (if c = 92 \<and> \<not> escapeLookahead cs
      then 92 # 92 # escapeBackslashes cs
      else c # escapeBackslashes cs)"

definition endsWith :: "ustring \<Rightarrow> ustring \<Rightarrow> bool" where
  "endsWith text pat = (length pat \<le> length text \<and> drop (length text - length pat) text = pat)"

fun indexFrom :: "nat \<Rightarrow> int \<Rightarrow> int \<Rightarrow> ustring \<Rightarrow> int" where
  "indexFrom c i found [] = found"
| "indexFrom c i found (x # xs) = indexFrom c (i + 1) (if x = c then i else found) xs"

definition lastIndexOf :: "ustring \<Rightarrow> nat \<Rightarrow> int" where
  "lastIndexOf text c = indexFrom c 0 (- 1) text"

definition matchCount :: "nat \<Rightarrow> ustring \<Rightarrow> int" where
  "matchCount c text = int (length (filter (\<lambda>x. x = c) text))"

function appendLoop :: "int \<Rightarrow> int \<Rightarrow> nat \<Rightarrow> ustring \<Rightarrow> ustring" where
  "appendLoop i n c text = (if i < n then appendLoop (i + 1) n c (text @ [c]) else text)"
  by pat_completeness auto
termination
  by (relation "measure (\<lambda>(i, n, c, text). nat (n - i))") auto

definition repairTruncated :: "ustring \<Rightarrow> ustring" where
  "repairTruncated text0 =
     (let lastQuote = lastIndexOf text0 34;
          lastColon = lastIndexOf text0 58;
          text = (if lastQuote > lastColon then text0 @ [34] else text0);
          openBraces = matchCount 123 text - matchCount 125 text;
          openBrackets = matchCount 91 text - matchCount 93 text
      in appendLoop 0 openBrackets 93 (appendLoop 0 openBraces 125 text))"

definition cleanJSONResponse :: "ustring \<Rightarrow> ustring" where
  "cleanJSONResponse text0 =
     (if text0 = [] then []
      else (let text = trim (removeFences (u ''```'') (removeFences (u ''```json'') text0))
            in if JSON_parse text \<noteq> None then text
               else (let text' = escapeBackslashes text
                     in if \<not> endsWith text' (u '']'') \<and> \<not> endsWith text' (u ''}'')
                        then repairTruncated text'
                        else text')))"

declare removeFences.simps [simp del]

declare appendLoop.simps [simp del]














section \<open>Record normalization (ai-service, normalizeOptions and normalizeMCQ)\<close>

text \<open>
  The values that reach the normalizer come from \<open>JSON.parse\<close>, so a JavaScript value is a
  \<open>json\<close> value; \<open>undefined\<close> (a missing property, a missing array element) is \<open>None\<close>.
  \<open>truthy\<close> is the conversion to boolean used by \<open>!x\<close> and \<open>x || y\<close>; a number is falsy
  when it is zero, which is read off the literal (a non-zero literal so small that it rounds to
  zero is not modelled). \<open>typeofObject v\<close> is \<open>typeof v === 'object'\<close>. \<open>getProp v k\<close> is the
  property read \<open>v.k\<close> for the names the source uses, none of which is inherited from a
  prototype: an object gives the member (the last one, should the name repeat), anything else
  gives \<open>undefined\<close>. \<open>jsOr a b\<close> is \<open>a || b\<close>, and \<open>orString a s\<close> is \<open>a || 's'\<close> for a
  string literal.
\<close>

definition numberIsZero :: "ustring \<Rightarrow> bool" where
  "numberIsZero lexeme =
     list_all (\<lambda>c. c = 48 \<or> c = 45 \<or> c = 46)
       (takeWhile (\<lambda>c. c \<noteq> 101 \<and> c \<noteq> 69) lexeme)"

fun truthy :: "json \<Rightarrow> bool" where
  "truthy JNull = False"
| "truthy (JBool b) = b"
| "truthy (JNumber n) = (\<not> numberIsZero n)"
| "truthy (JString s) = (s \<noteq> [])"
| "truthy (JArray xs) = True"
| "truthy (JObject ps) = True"

fun typeofObject :: "json \<Rightarrow> bool" where
  "typeofObject JNull = True"
| "typeofObject (JArray xs) = True"
| "typeofObject (JObject ps) = True"
| "typeofObject v = False"

fun isArray :: "json \<Rightarrow> bool" where
  "isArray (JArray xs) = True"
| "isArray v = False"

fun getProp :: "json \<Rightarrow> ustring \<Rightarrow> json option" where
  "getProp (JObject ps) k = map_of (rev ps) k"
| "getProp v k = None"

definition getIndex :: "json list \<Rightarrow> nat \<Rightarrow> json option" where
  "getIndex xs i = (if i < length xs then Some (xs ! i) else None)"

definition jsOr :: "json option \<Rightarrow> json option \<Rightarrow> json option" where
  "jsOr a b = (case a of None \<Rightarrow> b | Some v \<Rightarrow> if truthy v then Some v else b)"

definition orString :: "json option \<Rightarrow> ustring \<Rightarrow> json" where
  "orString a s = (case a of None \<Rightarrow> JString s | Some v \<Rightarrow> if truthy v then v else JString s)"

text \<open>
  \<open>fourSlots a b c d\<close> is the object literal \<open>{ A: a, B: b, C: c, D: d }\<close>.
\<close>

definition fourSlots :: "json \<Rightarrow> json \<Rightarrow> json \<Rightarrow> json \<Rightarrow> json" where
  "fourSlots a b c d = JObject [(u ''A'', a), (u ''B'', b), (u ''C'', c), (u ''D'', d)]"

definition normalizeOptions :: "json option \<Rightarrow> json" where
  "normalizeOptions options =
     (case options of
        None \<Rightarrow> fourSlots (JString []) (JString []) (JString []) (JString [])
      | Some opts \<Rightarrow>
          if \<not> truthy opts
          then fourSlots (JString []) (JString []) (JString []) (JString [])
          else if getProp opts (u ''A'') \<noteq> None \<and> getProp opts (u ''B'') \<noteq> None
          then fourSlots (orString (jsOr (getProp opts (u ''A'')) (getProp opts (u ''a''))) [])
                         (orString (jsOr (getProp opts (u ''B'')) (getProp opts (u ''b''))) [])
                         (orString (jsOr (getProp opts (u ''C'')) (getProp opts (u ''c''))) [])
                         (orString (jsOr (getProp opts (u ''D'')) (getProp opts (u ''d''))) [])
          else (case opts of
                  JArray xs \<Rightarrow>
                    fourSlots (orString (getIndex xs 0) []) (orString (getIndex xs 1) [])
                              (orString (getIndex xs 2) []) (orString (getIndex xs 3) [])
                | _ \<Rightarrow>
                    if getProp opts (u ''a'') \<noteq> None \<or> getProp opts (u ''b'') \<noteq> None
                    then fourSlots (orString (getProp opts (u ''a'')) [])
                                   (orString (getProp opts (u ''b'')) [])
                                   (orString (getProp opts (u ''c'')) [])
                                   (orString (getProp opts (u ''d'')) [])
                    else fourSlots (JString []) (JString []) (JString []) (JString [])))"

text \<open>
  \<open>toStringJs\<close> is the method call \<open>value.toString()\<close> and \<open>joinJs\<close> the
  \<open>Array.prototype.join\<close> behind it for arrays. A number is printed by the engine
  (\<open>numberToString\<close>, a parameter). An object prints as \<open>[object Object]\<close> unless it has a
  member named \<open>toString\<close>, which is then called although it is not a function: a
  \<open>TypeError\<close>. \<open>matchesAnswerLetter\<close> is the test \<open>answer.match(/^[A-DA-d]/)\<close>, whose
  character class is the two ranges \<open>A-D\<close> and \<open>A-d\<close>. \<open>toUpperCase\<close> is applied to one code
  unit that has passed this test, so only ASCII letters are concerned.
\<close>

fun toStringJs :: "(ustring \<Rightarrow> ustring) \<Rightarrow> json \<Rightarrow> js_error + ustring"
  and joinJs :: "(ustring \<Rightarrow> ustring) \<Rightarrow> json list \<Rightarrow> js_error + ustring" where
  "toStringJs numberToString JNull = Inl TypeError"
| "toStringJs numberToString (JBool b) = Inr (if b then u ''true'' else u ''false'')"
| "toStringJs numberToString (JNumber n) = Inr (numberToString n)"
| "toStringJs numberToString (JString s) = Inr s"
| "toStringJs numberToString (JArray xs) = joinJs numberToString xs"
| "toStringJs numberToString (JObject ps) =
     (if map_of ps (u ''toString'') \<noteq> None then Inl TypeError
      else Inr (u ''[object Object]''))"
| "joinJs numberToString [] = Inr []"
| "joinJs numberToString (x # xs) =
     (case (if x = JNull then Inr [] else toStringJs numberToString x) of
        Inl e \<Rightarrow> Inl e
      | Inr s \<Rightarrow>
          if xs = [] then Inr s
          else (case joinJs numberToString xs of
                  Inl e \<Rightarrow> Inl e
                | Inr r \<Rightarrow> Inr (s @ u '','' @ r)))"

definition matchesAnswerLetter :: "ustring \<Rightarrow> bool" where
  "matchesAnswerLetter answer =
     (case answer of
        [] \<Rightarrow> False
      | c # cs \<Rightarrow> (65 \<le> c \<and> c \<le> 68) \<or> (65 \<le> c \<and> c \<le> 100))"

definition toUpperCase :: "nat \<Rightarrow> nat" where
  "toUpperCase c = (if 97 \<le> c \<and> c \<le> 122 then c - 32 else c)"

definition normalizeMCQ :: "(ustring \<Rightarrow> ustring) \<Rightarrow> json \<Rightarrow> js_error + json option" where
  "normalizeMCQ numberToString mcq =
     (if \<not> truthy mcq \<or> \<not> typeofObject mcq then Inr None
      else (case toStringJs numberToString
                  (orString
                     (jsOr (getProp mcq (u ''correctAnswer''))
                       (jsOr (getProp mcq (u ''correct_answer''))
                         (jsOr (getProp mcq (u ''answer''))
                           (jsOr (getProp mcq (u ''Answer''))
                             (jsOr (getProp mcq (u ''correct_option''))
                                   (getProp mcq (u ''selected_option'')))))))
                     (u ''A'')) of
              Inl e \<Rightarrow> Inl e
            | Inr str \<Rightarrow>
                (let answer = trim str;
                     answerLetter = (if matchesAnswerLetter answer
                                     then [toUpperCase (hd answer)] else u ''A'')
                 in Inr (Some (JObject
                      [(u ''question'',
                          orString (jsOr (getProp mcq (u ''question''))
                                     (jsOr (getProp mcq (u ''Question''))
                                           (getProp mcq (u ''text''))))
                            (u ''No question provided'')),
                       (u ''options'',
                          normalizeOptions (jsOr (getProp mcq (u ''options''))
                                              (jsOr (getProp mcq (u ''Options''))
                                                    (getProp mcq (u ''choices''))))),
                       (u ''correctAnswer'', JString answerLetter),
                       (u ''explanation'',
                          orString (jsOr (getProp mcq (u ''explanation''))
                                     (jsOr (getProp mcq (u ''Explanation''))
                                           (getProp mcq (u ''reasoning''))))
                            [])])))))"

section \<open>The result cache, generateMCQs and solveMCQs (ai-service)\<close>

text \<open>
  The tier counts of a request or of one batch (\<open>difficultyCounts\<close>). \<open>validateMCQCount\<close>
  rejects negative and non-numeric counts, so the counts that reach the handler and the service
  are natural numbers.
\<close>

record batch =
  easyCount :: nat
  mediumCount :: nat
  hardCount :: nat

text \<open>
  \<open>resultCache\<close> is a JavaScript \<open>Map\<close>: an association list in insertion order with
  distinct keys. \<open>mapSet\<close> overwrites the value of a key that is present, in place, and
  appends a new key at the end; \<open>cacheSave\<close> is the block under \<open>// Save to cache\<close>, where
  \<open>resultCache.keys().next().value\<close> is the first key.
\<close>

definition CACHE_LIMIT :: nat where
  "CACHE_LIMIT = 500"

type_synonym result_cache = "(ustring \<times> json list) list"

definition mapGet :: "result_cache \<Rightarrow> ustring \<Rightarrow> json list option" where
  "mapGet m k = map_of m k"

definition mapSet :: "result_cache \<Rightarrow> ustring \<Rightarrow> json list \<Rightarrow> result_cache" where
  "mapSet m k v =
     (if map_of m k \<noteq> None
      then map (\<lambda>(k', v'). if k' = k then (k', v) else (k', v')) m
      else m @ [(k, v)])"

definition mapDelete :: "result_cache \<Rightarrow> ustring \<Rightarrow> result_cache" where
  "mapDelete m k = filter (\<lambda>(k', v'). k' \<noteq> k) m"

definition cacheSave :: "result_cache \<Rightarrow> ustring \<Rightarrow> json list \<Rightarrow> result_cache" where
  "cacheSave resultCache cacheKey validMcqs =
     mapSet (if length resultCache \<ge> CACHE_LIMIT
             then (case resultCache of
                     [] \<Rightarrow> resultCache
                   | (firstKey, v) # rest \<Rightarrow> mapDelete resultCache firstKey)
             else resultCache)
       cacheKey validMcqs"

text \<open>
  The state of the service is the cache and the number of provider calls made so far; the
  provider's answers are one sequence of per-call outcomes for the whole run, of which each
  \<open>generateWithFallback\<close> consumes the next ones. An uploaded file is either a presentation,
  with what \<open>extractTextFromPPT\<close> gives for it (\<open>None\<close> when it throws), or any other
  attachment, passed to the provider as it is. The prompt texts are not modelled: they only go
  to the provider, whose answers are arbitrary. The digest \<open>sha256hex\<close> is a parameter.
  \<open>showNat\<close> prints a count in decimal, as the template literal does.
\<close>

record service_state =
  resultCache :: result_cache
  callsMade :: nat

datatype upload =
  Presentation "ustring option"
  | Attachment

function showNat :: "nat \<Rightarrow> ustring" where
  "showNat n = (if n < 10 then [48 + n] else showNat (n div 10) @ [48 + n mod 10])"
  by pat_completeness auto
termination
  by (relation "measure (\<lambda>n. n)") auto

declare showNat.simps [simp del]

definition cacheKeyText :: "ustring \<Rightarrow> batch \<Rightarrow> bool \<Rightarrow> ustring" where
  "cacheKeyText studyMaterial difficultyCounts includeExplanation =
     studyMaterial @ u ''|'' @ showNat (easyCount difficultyCounts) @ u ''|''
       @ showNat (mediumCount difficultyCounts) @ u ''|''
       @ showNat (hardCount difficultyCounts) @ u ''|''
       @ (if includeExplanation then u ''true'' else u ''false'')"

text \<open>
  \<open>isValidMcq\<close> is the filter predicate \<open>mcq && typeof mcq === 'object'\<close>.
  \<open>parseGenerated\<close> is the part of \<open>generateMCQs\<close> from \<open>cleanJSONResponse\<close> to the
  malformed-records check; when the parsed value is not an array, \<open>mcqs.filter\<close> is not a
  function and the call throws a \<open>TypeError\<close>.
\<close>

definition isValidMcq :: "json \<Rightarrow> bool" where
  "isValidMcq mcq = (truthy mcq \<and> typeofObject mcq)"

definition parseGenerated :: "ustring \<Rightarrow> js_error + json list" where
  "parseGenerated text0 =
     (case JSON_parse (cleanJSONResponse text0) of
        None \<Rightarrow> Inl SyntaxError
      | Some mcqs \<Rightarrow>
          (case mcqs of
             JArray xs \<Rightarrow>
               (let validMcqs = filter isValidMcq xs
                in if validMcqs = [] \<and> xs \<noteq> []
                   then Inl (Error (u ''All generated MCQs were malformed. Please try again or refine your material.''))
                   else Inr validMcqs)
           | _ \<Rightarrow> Inl TypeError))"

definition generateMCQs ::
  "(ustring \<Rightarrow> ustring) \<Rightarrow> (nat \<Rightarrow> ustring outcome) \<Rightarrow> ustring \<Rightarrow> batch \<Rightarrow> bool
     \<Rightarrow> upload option \<Rightarrow> service_state \<Rightarrow> (js_error + json list) \<times> service_state" where
  "generateMCQs sha256hex provider studyMaterial difficultyCounts includeExplanation file s =
     (let cacheKey = (case file of
                        None \<Rightarrow> Some (sha256hex (cacheKeyText studyMaterial difficultyCounts
                                                     includeExplanation))
                      | Some f \<Rightarrow> None)
      in case (case cacheKey of None \<Rightarrow> None | Some k \<Rightarrow> mapGet (resultCache s) k) of
           Some cached \<Rightarrow> (Inr cached, s)
         | None \<Rightarrow>
             (if file = Some (Presentation None)
              then (Inl (Wrapped (u ''Failed to generate MCQs: '')
                           (Error (u ''Failed to extract text from PPT file''))), s)
              else (case generateWithFallback (\<lambda>k. provider (callsMade s + k)) of
                      (Inl e, calls) \<Rightarrow>
                        (Inl (Wrapped (u ''Failed to generate MCQs: '') e),
                         s\<lparr>callsMade := callsMade s + length calls\<rparr>)
                    | (Inr text0, calls) \<Rightarrow>
                        (case parseGenerated text0 of
                           Inl e \<Rightarrow>
                             (Inl (Wrapped (u ''Failed to generate MCQs: '') e),
                              s\<lparr>callsMade := callsMade s + length calls\<rparr>)
                         | Inr validMcqs \<Rightarrow>
                             (Inr validMcqs,
                              s\<lparr>callsMade := callsMade s + length calls,
                                resultCache :=
                                  (case cacheKey of
                                     None \<Rightarrow> resultCache s
                                   | Some k \<Rightarrow>
                                       if validMcqs \<noteq> []
                                       then cacheSave (resultCache s) k validMcqs
                                       else resultCache s)\<rparr>)))))"


text \<open>
  \<open>parseSolved\<close> is the part of \<open>solveMCQs\<close> from \<open>cleanJSONResponse\<close> on: the parse, the
  probing of the wrapper keys \<open>possibleArrays\<close> (the \<open>for\<close> loop with \<open>break\<close> is
  \<open>probeKeys\<close>), the normalization of every record (\<open>normalizeAll\<close>, which stops at the first
  record whose normalization throws) and the filter that drops \<open>null\<close>.
\<close>

definition possibleArrays :: "ustring list" where
  "possibleArrays = [u ''mcqs'', u ''questions'', u ''answers'', u ''results'']"

fun probeKeys :: "ustring list \<Rightarrow> json \<Rightarrow> json" where
  "probeKeys [] mcqs = mcqs"
| "probeKeys (key # keys) mcqs =
     (case getProp mcqs key of
        Some (JArray xs) \<Rightarrow> JArray xs
      | _ \<Rightarrow> probeKeys keys mcqs)"

fun normalizeAll :: "(ustring \<Rightarrow> ustring) \<Rightarrow> json list \<Rightarrow> js_error + json option list" where
  "normalizeAll numberToString [] = Inr []"
| "normalizeAll numberToString (mcq # mcqs) =
     (case normalizeMCQ numberToString mcq of
        Inl e \<Rightarrow> Inl e
      | Inr normalized \<Rightarrow>
          (case normalizeAll numberToString mcqs of
             Inl e \<Rightarrow> Inl e
           | Inr rest \<Rightarrow> Inr (normalized # rest)))"

definition parseSolved :: "(ustring \<Rightarrow> ustring) \<Rightarrow> ustring \<Rightarrow> js_error + json list" where
  "parseSolved numberToString text0 =
     (case JSON_parse (cleanJSONResponse text0) of
        None \<Rightarrow> Inl (Error (u ''Failed to parse AI response as JSON. The AI may have returned an invalid format.''))
      | Some parsed \<Rightarrow>
          (let mcqs = (if \<not> isArray parsed \<and> truthy parsed \<and> typeofObject parsed
                       then probeKeys possibleArrays parsed else parsed)
           in case mcqs of
                JArray xs \<Rightarrow>
                  (case normalizeAll numberToString xs of
                     Inl e \<Rightarrow> Inl e
                   | Inr normalized \<Rightarrow>
                       (let validMcqs = List.map_filter (\<lambda>mcq. mcq) normalized
                        in if validMcqs = []
                           then Inl (Error (u ''No valid MCQs could be extracted from the AI response''))
                           else Inr validMcqs))
              | _ \<Rightarrow> Inl (Error (u ''Invalid response format: expected array of MCQs''))))"

definition solveMCQs ::
  "(ustring \<Rightarrow> ustring) \<Rightarrow> (nat \<Rightarrow> ustring outcome) \<Rightarrow> upload option \<Rightarrow> service_state
     \<Rightarrow> (js_error + json list) \<times> service_state" where
  "solveMCQs numberToString provider file s =
     (if file = Some (Presentation None)
      then (Inl (Wrapped (u ''Failed to solve MCQs: '')
                   (Error (u ''Failed to extract text from PPT file''))), s)
      else (case generateWithFallback (\<lambda>k. provider (callsMade s + k)) of
              (Inl e, calls) \<Rightarrow>
                (Inl (Wrapped (u ''Failed to solve MCQs: '') e),
                 s\<lparr>callsMade := callsMade s + length calls\<rparr>)
            | (Inr text0, calls) \<Rightarrow>
                (case parseSolved numberToString text0 of
                   Inl e \<Rightarrow>
                     (Inl (Wrapped (u ''Failed to solve MCQs: '') e),
                      s\<lparr>callsMade := callsMade s + length calls\<rparr>)
                 | Inr validMcqs \<Rightarrow>
                     (Inr validMcqs, s\<lparr>callsMade := callsMade s + length calls\<rparr>))))"

text \<open>
  \<open>generateMCQs\<close> is an \<open>async\<close> function: it runs without interruption from its call to
  its first \<open>await\<close>, and from the resumption after its last \<open>await\<close> to its end; the
  requests of other clients run in between. As far as the cache is concerned, the first segment
  is the lookup (\<open>generateMCQsLookup\<close>; \<open>cacheKey\<close> is \<open>null\<close>, here \<open>None\<close>, when a file
  is uploaded), after which a call that found nothing awaits the text extraction and the
  provider. The last segment (\<open>generateMCQsResume\<close>) gets what the awaits delivered, which is
  the text of the response or the error thrown by \<open>extractTextFromPPT\<close>,
  \<open>generateWithFallback\<close> or \<open>response.text()\<close>; it parses, filters and saves. A call of
  \<open>generateMCQs\<close> during which no other request runs is the one segment after the other.

  The states of the server are the cache and the cache keys of the \<open>generateMCQs\<close> calls that
  are awaiting. The server starts with an empty cache and no call; a call that misses the cache
  starts awaiting; any awaiting call can resume, with any delivery. A call that finds its key
  returns at once, and \<open>solveMCQs\<close> never reads or writes the cache: neither changes the
  state. \<open>cacheInv\<close> is the invariant of the cache in these states.
\<close>

definition generateMCQsLookup :: "ustring option \<Rightarrow> result_cache \<Rightarrow> json list option" where
  "generateMCQsLookup cacheKey entries =
     (case cacheKey of None \<Rightarrow> None | Some k \<Rightarrow> mapGet entries k)"

definition generateMCQsResume ::
  "ustring option \<Rightarrow> js_error + ustring \<Rightarrow> result_cache \<Rightarrow> (js_error + json list) \<times> result_cache" where
  "generateMCQsResume cacheKey awaited entries =
     (case awaited of
        Inl e \<Rightarrow> (Inl (Wrapped (u ''Failed to generate MCQs: '') e), entries)
      | Inr text0 \<Rightarrow>
          (case parseGenerated text0 of
             Inl e \<Rightarrow> (Inl (Wrapped (u ''Failed to generate MCQs: '') e), entries)
           | Inr validMcqs \<Rightarrow>
               (Inr validMcqs,
                case cacheKey of
                  None \<Rightarrow> entries
                | Some k \<Rightarrow>
                    if validMcqs \<noteq> [] then cacheSave entries k validMcqs
                    else entries)))"

record server_state =
  cache :: result_cache
  awaiting :: "ustring option list"

inductive reachable :: "server_state \<Rightarrow> bool" where
  start: "reachable \<lparr>cache = [], awaiting = []\<rparr>"
| call:
    "reachable sv \<Longrightarrow> generateMCQsLookup cacheKey (cache sv) = None
       \<Longrightarrow> reachable (sv\<lparr>awaiting := awaiting sv @ [cacheKey]\<rparr>)"
| resume:
    "reachable sv \<Longrightarrow> i < length (awaiting sv)
       \<Longrightarrow> generateMCQsResume (awaiting sv ! i) awaited (cache sv) = (r, c')
       \<Longrightarrow> reachable \<lparr>cache = c', awaiting = take i (awaiting sv) @ drop (Suc i) (awaiting sv)\<rparr>"

definition cacheInv :: "result_cache \<Rightarrow> bool" where
  "cacheInv c = (length c \<le> CACHE_LIMIT \<and> distinct (map fst c) \<and> list_all (\<lambda>(k, v). v \<noteq> []) c)"

text \<open>
  A full cache for the eviction example: \<open>filledCache n\<close> holds \<open>n\<close> entries under the keys
  \<open>k\<close>, \<open>kk\<close>, \<open>kkk\<close> and so on, in this order, each with the record of the response
  \<open>[{"q":"a"}]\<close>.
\<close>

definition exampleKey :: "nat \<Rightarrow> ustring" where
  "exampleKey n = replicate (Suc n) 107"

definition exampleRecords :: "json list" where
  "exampleRecords = [JObject [(u ''q'', JString (u ''a''))]]"

definition filledCache :: "nat \<Rightarrow> result_cache" where
  "filledCache n = map (\<lambda>i. (exampleKey i, exampleRecords)) [0..<n]"

section \<open>Batch splitting and the generation stream (routes, POST /generate-mcq)\<close>

definition BATCH_SIZE :: nat where
  "BATCH_SIZE = 2"

text \<open>
  The \<open>while (remainingEasy > 0 || remainingMedium > 0 || remainingHard > 0)\<close> loop of the
  handler; the last argument is the array \<open>batches\<close> built so far. The differences under
  \<open>Math.max(0, ...)\<close> are never negative (\<open>batchEasy\<close> and \<open>batchEasy + batchMedium\<close> are
  at most \<open>BATCH_SIZE\<close>), so the subtraction of natural numbers is the source's.
\<close>

function batchLoop :: "nat \<Rightarrow> nat \<Rightarrow> nat \<Rightarrow> batch list \<Rightarrow> batch list" where
  "batchLoop remainingEasy remainingMedium remainingHard batches =
     (if remainingEasy > 0 \<or> remainingMedium > 0 \<or> remainingHard > 0 then
        (let batchEasy = min remainingEasy BATCH_SIZE;
             batchMedium = min remainingMedium (max 0 (BATCH_SIZE - batchEasy));
             batchHard = min remainingHard (max 0 (BATCH_SIZE - (batchEasy + batchMedium)))
         in batchLoop (remainingEasy - batchEasy) (remainingMedium - batchMedium)
              (remainingHard - batchHard)
              (if batchEasy + batchMedium + batchHard > 0
               then batches @ [\<lparr>easyCount = batchEasy, mediumCount = batchMedium,
                                 hardCount = batchHard\<rparr>]
               else batches))
      else batches)"
  by pat_completeness auto
termination
  by (relation "measure (\<lambda>(e, m, h, bs). e + m + h)")
     (auto simp: BATCH_SIZE_def Let_def min_def max_def)

definition makeBatches :: "nat \<Rightarrow> nat \<Rightarrow> nat \<Rightarrow> batch list" where
  "makeBatches easy medium hard = batchLoop easy medium hard []"

text \<open>
  What the handler writes to the response: a content chunk
  \<open>{mcqs, completed: false, total, current}\<close> or the terminal \<open>{completed: true}\<close>.
\<close>

datatype 'm chunk =
  Chunk "'m list" nat nat
  | Completed

fun nonTerminal :: "'m chunk \<Rightarrow> bool" where
  "nonTerminal (Chunk mcqs tot cur) = True"
| "nonTerminal Completed = False"

text \<open>
  The \<open>for\<close> loop over \<open>batches\<close>. \<open>gen\<close> is the call
  \<open>generateMCQs(studyMaterial, batch, includeExplanation, req.file)\<close> with the request's
  fixed arguments applied; it reads and updates the service state \<open>'s\<close> and either returns the
  records or throws \<open>'e\<close>. The result is the chunks written, the errors passed to
  \<open>console.error\<close>, and the final state. The one-second spacing between batches is a delay
  only and is left out.
\<close>

fun processBatches ::
  "('s \<Rightarrow> batch \<Rightarrow> ('e + 'm list) \<times> 's) \<Rightarrow> nat \<Rightarrow> batch list \<Rightarrow> nat \<Rightarrow> 's
     \<Rightarrow> 'm chunk list \<times> 'e list \<times> 's" where
  "processBatches gen totalCount [] completedInRequest s = ([], [], s)"
| "processBatches gen totalCount (b # bs) completedInRequest s =
     (case gen s b of
        (Inr mcqs, s') \<Rightarrow>
          (let completed' = completedInRequest + length mcqs;
               (out, logged, s'') = processBatches gen totalCount bs completed' s'
           in (Chunk mcqs totalCount completed' # out, logged, s''))
      | (Inl err, s') \<Rightarrow>
          (let (out, logged, s'') = processBatches gen totalCount bs completedInRequest s'
           in (out, err # logged, s'')))"

definition generateMcqHandler ::
  "('s \<Rightarrow> batch \<Rightarrow> ('e + 'm list) \<times> 's) \<Rightarrow> batch \<Rightarrow> 's \<Rightarrow> 'm chunk list \<times> 'e list \<times> 's" where
  "generateMcqHandler gen validatedData s =
     (let totalCount = easyCount validatedData + mediumCount validatedData
                         + hardCount validatedData;
          batches = makeBatches (easyCount validatedData) (mediumCount validatedData)
                      (hardCount validatedData);
          (out, logged, s') = processBatches gen totalCount batches 0 s
      in (out @ [Completed], logged, s'))"

text \<open>
  The outcomes of the successive \<open>generateMCQs\<close> calls, one per batch in order, each call
  starting in the state the previous one left. This is a specification device: the handler
  above does not use it.
\<close>

fun batchOutcomes ::
  "('s \<Rightarrow> batch \<Rightarrow> ('e + 'm list) \<times> 's) \<Rightarrow> batch list \<Rightarrow> 's \<Rightarrow> ('e + 'm list) list" where
  "batchOutcomes gen [] s = []"
| "batchOutcomes gen (b # bs) s = fst (gen s b) # batchOutcomes gen bs (snd (gen s b))"

text \<open>The chunks a list of outcomes should produce, with the running total.\<close>

fun chunksOf :: "nat \<Rightarrow> nat \<Rightarrow> ('e + 'm list) list \<Rightarrow> 'm chunk list" where
  "chunksOf totalCount completed [] = []"
| "chunksOf totalCount completed (Inr mcqs # rs) =
     Chunk mcqs totalCount (completed + length mcqs)
       # chunksOf totalCount (completed + length mcqs) rs"
| "chunksOf totalCount completed (Inl err # rs) = chunksOf totalCount completed rs"

fun succeeded :: "'e + 'a \<Rightarrow> bool" where
  "succeeded (Inr x) = True"
| "succeeded (Inl e) = False"

fun errorsOf :: "('e + 'm list) list \<Rightarrow> 'e list" where
  "errorsOf [] = []"
| "errorsOf (Inr mcqs # rs) = errorsOf rs"
| "errorsOf (Inl err # rs) = err # errorsOf rs"

text \<open>
  The route handler with the service's \<open>generateMCQs\<close> as the call it makes per batch.
\<close>

definition generateMcqRoute ::
  "(ustring \<Rightarrow> ustring) \<Rightarrow> (nat \<Rightarrow> ustring outcome) \<Rightarrow> ustring \<Rightarrow> bool \<Rightarrow> upload option
     \<Rightarrow> batch \<Rightarrow> service_state \<Rightarrow> json chunk list \<times> js_error list \<times> service_state" where
  "generateMcqRoute sha256hex provider studyMaterial includeExplanation file validatedData s =
     generateMcqHandler
       (\<lambda>st b. generateMCQs sha256hex provider studyMaterial b includeExplanation file st)
       validatedData s"

section \<open>Properties of the sanitizer\<close>

lemmas json_eval = JSON_parse_def tokenize_def parseTokens_def startStep_def escapeStep_def
  wordToken_def isJsonNumber_def validInteger_def validExponent_def isDigit_def isWordChar_def
  isJsonWhitespace_def hexValue_def u_def

lemmas clean_eval = cleanJSONResponse_def trim_def isJsWhitespace_def startsWith_def
  escapeLookahead_def endsWith_def repairTruncated_def lastIndexOf_def matchCount_def Let_def
  removeFences.simps appendLoop.simps

text \<open>
  White space around a JSON text does not change what \<open>JSON.parse\<close> returns: the code units
  that \<open>trim\<close> removes from a text that parses are white space of the JSON grammar too.
\<close>

lemma foldl_lexStep_LError [simp]: "foldl lexStep LError s = LError"
  by (induction s) auto

lemma js_whitespace_cases:
  "isJsWhitespace w \<Longrightarrow> w \<in> {9, 10, 11, 12, 13, 32, 160} \<or> 5760 \<le> w"
  unfolding isJsWhitespace_def by auto

lemma js_whitespace_facts:
  assumes "isJsWhitespace w"
  shows "\<not> isWordChar w" and "hexValue w = None" and "w \<noteq> 34" and "w \<noteq> 92"
    and "w \<noteq> 123" and "w \<noteq> 125" and "w \<noteq> 91" and "w \<noteq> 93" and "w \<noteq> 58" and "w \<noteq> 44"
    and "w \<noteq> 47" and "w \<noteq> 98" and "w \<noteq> 102" and "w \<noteq> 110" and "w \<noteq> 114" and "w \<noteq> 116"
    and "w \<noteq> 117"
  using js_whitespace_cases[OF assms] unfolding isWordChar_def isDigit_def hexValue_def
  by auto

lemma startStep_js_whitespace:
  "isJsWhitespace w \<Longrightarrow> startStep ts w = LStart ts \<or> startStep ts w = LError"
  by (simp add: startStep_def js_whitespace_facts)

lemma tokenize_leading:
  assumes "isJsWhitespace w" and "tokenize (w # s) = Some ts"
  shows "tokenize s = Some ts"
proof -
  from startStep_js_whitespace[OF assms(1), of "[]"] assms(2) show ?thesis
    by (auto simp: tokenize_def)
qed

lemma lexStep_js_whitespace:
  assumes "isJsWhitespace w" and "lexFinish (lexStep S w) = Some ts"
  shows "lexFinish S = Some ts"
proof (cases S)
  case (LStart ts0)
  with startStep_js_whitespace[OF assms(1), of ts0] assms(2) show ?thesis by auto
next
  case (LString ts0 acc)
  with assms(2) js_whitespace_facts[OF assms(1)] show ?thesis by (simp split: if_splits)
next
  case (LEscape ts0 acc)
  with assms(2) js_whitespace_facts[OF assms(1)] show ?thesis by (simp add: escapeStep_def)
next
  case (LUnicode ts0 acc hs)
  with assms(2) js_whitespace_facts[OF assms(1)] show ?thesis by simp
next
  case (LWord ts0 word)
  from assms(1) have nw: "\<not> isWordChar w" by (rule js_whitespace_facts)
  show ?thesis
  proof (cases "wordToken word")
    case None
    with LWord nw assms(2) show ?thesis by simp
  next
    case (Some t)
    with LWord nw assms(2) startStep_js_whitespace[OF assms(1), of "ts0 @ [t]"] show ?thesis by auto
  qed
next
  case LError
  with assms show ?thesis by simp
qed

lemma tokenize_trailing:
  assumes "isJsWhitespace w" and "tokenize (s @ [w]) = Some ts"
  shows "tokenize s = Some ts"
  using assms lexStep_js_whitespace[of w "foldl lexStep (LStart []) s" ts]
  by (simp add: tokenize_def)

lemma JSON_parse_leading:
  "isJsWhitespace w \<Longrightarrow> JSON_parse (w # s) = Some v \<Longrightarrow> JSON_parse s = Some v"
  by (auto simp: JSON_parse_def split: option.splits dest: tokenize_leading)

lemma JSON_parse_trailing:
  "isJsWhitespace w \<Longrightarrow> JSON_parse (s @ [w]) = Some v \<Longrightarrow> JSON_parse s = Some v"
  by (auto simp: JSON_parse_def split: option.splits dest: tokenize_trailing)

lemma JSON_parse_dropWhile:
  "JSON_parse x = Some v \<Longrightarrow> JSON_parse (dropWhile isJsWhitespace x) = Some v"
  by (induction x) (auto dest: JSON_parse_leading)

lemma JSON_parse_dropWhile_end:
  "JSON_parse x = Some v \<Longrightarrow> JSON_parse (rev (dropWhile isJsWhitespace (rev x))) = Some v"
  by (induction x rule: rev_induct) (auto dest: JSON_parse_trailing)

lemma JSON_parse_trim: "JSON_parse x = Some v \<Longrightarrow> JSON_parse (trim x) = Some v"
  unfolding trim_def by (intro JSON_parse_dropWhile_end JSON_parse_dropWhile)

text \<open>
  A text without the marker is left as it is by \<open>removeFences\<close>; a fenced answer is unwrapped.
\<close>

lemma removeFences_absent:
  "\<not> includesStr t marker \<Longrightarrow> removeFences marker t = t"
proof (induction t)
  case Nil
  show ?case by (subst removeFences.simps) simp
next
  case (Cons c cs)
  then have "\<not> startsWith (c # cs) marker" "removeFences marker cs = cs" by auto
  then show ?case by (subst removeFences.simps) simp
qed

lemma startsWith_append:
  assumes "startsWith t (a @ b)"
  shows "startsWith t a"
proof -
  from assms have e: "take (length a + length b) t = a @ b" by (simp add: startsWith_def)
  have "take (length a) t = take (length a) (take (length a + length b) t)" by simp
  also have "\<dots> = a" by (simp only: e) simp
  finally show ?thesis by (simp add: startsWith_def)
qed

lemma includesStr_append: "includesStr t (a @ b) \<Longrightarrow> includesStr t a"
  by (induction t) (auto dest: startsWith_append simp: startsWith_def[of "[]"])

lemma fenced_answer_unwrapped:
  \<open>cleanJSONResponse (u ''```json\<newline>[{"a":"x"}]\<newline>```'') = u ''[{"a":"x"}]''\<close>
  by (simp add: json_eval clean_eval)

text \<open>
  \<open>lastIndexOf\<close> is -1 when the code unit does not occur, and otherwise the index of its last
  occurrence; and the lookahead of the backslash step is decided by the character class alone.
\<close>

lemma indexFrom_absent: "c \<notin> set xs \<Longrightarrow> indexFrom c i found xs = found"
  by (induction xs arbitrary: i found) auto

lemma indexFrom_present:
  "c \<in> set xs \<Longrightarrow>
     \<exists>k. indexFrom c i found xs = i + int k \<and> k < length xs \<and> xs ! k = c
         \<and> (\<forall>j. k < j \<and> j < length xs \<longrightarrow> xs ! j \<noteq> c)"
proof (induction xs arbitrary: i found)
  case Nil
  then show ?case by simp
next
  case (Cons x xs)
  show ?case
  proof (cases "c \<in> set xs")
    case True
    from Cons.IH[OF True, of "i + 1" "if x = c then i else found"] obtain k where
      k: "indexFrom c (i + 1) (if x = c then i else found) xs = i + 1 + int k" "k < length xs"
         "xs ! k = c" "\<forall>j. k < j \<and> j < length xs \<longrightarrow> xs ! j \<noteq> c" by blast
    have "\<forall>j. Suc k < j \<and> j < length (x # xs) \<longrightarrow> (x # xs) ! j \<noteq> c"
    proof (intro allI impI)
      fix j assume j: "Suc k < j \<and> j < length (x # xs)"
      then obtain j' where "j = Suc j'" by (cases j) auto
      with j k(4) show "(x # xs) ! j \<noteq> c" by auto
    qed
    with k show ?thesis by (intro exI[of _ "Suc k"]) auto
  next
    case False
    with Cons.prems have xc: "x = c" by simp
    have "\<forall>j. 0 < j \<and> j < length (x # xs) \<longrightarrow> (x # xs) ! j \<noteq> c"
    proof (intro allI impI)
      fix j assume j: "0 < j \<and> j < length (x # xs)"
      then obtain j' where "j = Suc j'" by (cases j) auto
      with j False show "(x # xs) ! j \<noteq> c" by (auto simp: in_set_conv_nth)
    qed
    with xc False show ?thesis
      by (intro exI[of _ 0]) (simp add: indexFrom_absent)
  qed
qed

lemma lastIndexOf_absent: "c \<notin> set t \<Longrightarrow> lastIndexOf t c = - 1"
  by (simp add: lastIndexOf_def indexFrom_absent)

lemma lastIndexOf_present:
  "c \<in> set t \<Longrightarrow>
     \<exists>k. lastIndexOf t c = int k \<and> k < length t \<and> t ! k = c
         \<and> (\<forall>j. k < j \<and> j < length t \<longrightarrow> t ! j \<noteq> c)"
  using indexFrom_present[of c t 0 "- 1"] by (simp add: lastIndexOf_def)

lemma escapeLookahead_class:
  "escapeLookahead rest
     = (case rest of [] \<Rightarrow> False
        | c # cs \<Rightarrow> c = 98 \<or> c = 102 \<or> c = 110 \<or> c = 114 \<or> c = 116 \<or> c = 117 \<or> c = 34 \<or> c = 47)"
  by (auto simp: escapeLookahead_def split: list.splits)




text \<open>
  C3, as stated, fails: the fence markers are removed before the strict parse is tried, so a
  valid JSON text that contains three backquotes inside a string is changed. The text
  \<open>["```"]\<close> parses to the array holding the string \<open>```\<close>; sanitized, it is \<open>[""]\<close>.
\<close>

theorem C3_fence_inside_string_counterexample:
  \<open>JSON_parse (u ''["```"]'') = Some (JArray [JString (u ''```'')])
   \<and> JSON_parse (cleanJSONResponse (u ''["```"]'')) = Some (JArray [JString []])
   \<and> JSON_parse (cleanJSONResponse (u ''["```"]'')) \<noteq> JSON_parse (u ''["```"]'')\<close>
  by (simp add: json_eval clean_eval)

text \<open>
  C3, amended. For every input that is valid JSON and contains no fence marker \<open>```\<close>, the
  sanitizer returns the input with only its surrounding white space removed (no repair step
  runs), and the parsed value is unchanged.
\<close>

theorem C3_valid_without_fence_unchanged:
  assumes "JSON_parse x = Some v" and "\<not> includesStr x (u ''```'')"
  shows "cleanJSONResponse x = trim x \<and> JSON_parse (cleanJSONResponse x) = Some v"
proof -
  have j: "u ''```json'' = u ''```'' @ u ''json''" by (simp add: u_def)
  from assms(2) have "\<not> includesStr x (u ''```json'')"
    unfolding j by (blast dest: includesStr_append)
  then have "removeFences (u ''```'') (removeFences (u ''```json'') x) = x"
    using assms(2) by (simp only: removeFences_absent not_False_eq_True)
  moreover from assms(1) have "x \<noteq> []"
    by (auto simp: JSON_parse_def tokenize_def parseTokens_def)
  moreover note JSON_parse_trim [OF assms(1)]
  ultimately show ?thesis by (simp add: cleanJSONResponse_def Let_def)
qed

theorem C3_valid_without_fence_unchanged_witness:
  \<open>JSON_parse (u '' [{"a":"x"}] '') = Some (JArray [JObject [(u ''a'', JString (u ''x''))]])
   \<and> cleanJSONResponse (u '' [{"a":"x"}] '') = u ''[{"a":"x"}]''
   \<and> JSON_parse (cleanJSONResponse (u '' [{"a":"x"}] ''))
       = Some (JArray [JObject [(u ''a'', JString (u ''x''))]])\<close>
proof -
  have p: \<open>JSON_parse (u '' [{"a":"x"}] '') = Some (JArray [JObject [(u ''a'', JString (u ''x''))]])\<close>
    by (simp add: json_eval)
  have n: \<open>\<not> includesStr (u '' [{"a":"x"}] '') (u ''```'')\<close>
    by (simp add: u_def startsWith_def)
  have t: \<open>trim (u '' [{"a":"x"}] '') = u ''[{"a":"x"}]''\<close>
    by (simp add: trim_def isJsWhitespace_def u_def)
  from C3_valid_without_fence_unchanged [OF p n]
  have c1: \<open>cleanJSONResponse (u '' [{"a":"x"}] '') = trim (u '' [{"a":"x"}] '')\<close>
    and c2: \<open>JSON_parse (cleanJSONResponse (u '' [{"a":"x"}] ''))
               = Some (JArray [JObject [(u ''a'', JString (u ''x''))]])\<close>
    by blast+
  from c1 t have c3: \<open>cleanJSONResponse (u '' [{"a":"x"}] '') = u ''[{"a":"x"}]''\<close>
    by (rule trans)
  from p c3 c2 show ?thesis by blast
qed

text \<open>
  C4. The source doubles a backslash unless the next code unit is one of
  \<open>b f n r t u " /\<close>: \<open>u\<close> stands in the character class, so the alternative that asks for
  four hexadecimal digits after \<open>u\<close> never decides anything, and the backslash itself is not in
  the class. On the input \<open>["\underline"]\<close> (a backslash followed by \<open>underline\<close>), which
  fails the strict parse, no backslash is doubled and the sanitized text still does not parse.
\<close>

theorem C4_backslash_before_u_not_doubled:
  \<open>JSON_parse (u ''["'' @ [92] @ u ''underline"]'') = None
   \<and> cleanJSONResponse (u ''["'' @ [92] @ u ''underline"]'') = u ''["'' @ [92] @ u ''underline"]''
   \<and> JSON_parse (cleanJSONResponse (u ''["'' @ [92] @ u ''underline"]'')) = None\<close>
  by (simp add: json_eval clean_eval)

text \<open>
  Two more evaluations of the backslash step: the spec's example (a backslash followed by
  \<open>alpha\<close>) is repaired as the spec says, and an escaped backslash in a text that fails the
  strict parse has its first backslash doubled.
\<close>

lemma backslash_alpha_repaired:
  \<open>JSON_parse (u ''[{"e":"'' @ [92] @ u ''alpha"}]'') = None
   \<and> cleanJSONResponse (u ''[{"e":"'' @ [92] @ u ''alpha"}]'')
       = u ''[{"e":"'' @ [92, 92] @ u ''alpha"}]''
   \<and> JSON_parse (cleanJSONResponse (u ''[{"e":"'' @ [92] @ u ''alpha"}]''))
       = Some (JArray [JObject [(u ''e'', JString ([92] @ u ''alpha''))]])\<close>
  by (simp add: json_eval clean_eval)

lemma escaped_backslash_doubled:
  \<open>escapeBackslashes (u ''["a'' @ [92, 92] @ u ''b '' @ [92] @ u ''alpha"]'')
     = u ''["a'' @ [92, 92, 92] @ u ''b '' @ [92, 92] @ u ''alpha"]''\<close>
  by (simp add: escapeLookahead_def u_def)


























































section \<open>Properties of the normalizer\<close>

lemmas norm_eval = normalizeMCQ_def normalizeOptions_def fourSlots_def orString_def jsOr_def
  getIndex_def matchesAnswerLetter_def toUpperCase_def numberIsZero_def Let_def

text \<open>
  Whatever the options value is, the normalized options are an object with exactly the four
  slots A, B, C, D; and an array, an upper-case keyed object and a lower-case keyed object
  holding the same four values give the same four slots.
\<close>

lemma normalizeOptions_four_slots:
  "\<exists>a b c d. normalizeOptions options = fourSlots a b c d"
  by (auto simp: normalizeOptions_def split: option.splits json.splits)

lemma normalizeOptions_three_shapes:
  "normalizeOptions (Some (JArray [a, b, c, d]))
     = fourSlots (orString (Some a) []) (orString (Some b) []) (orString (Some c) []) (orString (Some d) [])"
  "normalizeOptions (Some (JObject [(u ''A'', a), (u ''B'', b), (u ''C'', c), (u ''D'', d)]))
     = fourSlots (orString (Some a) []) (orString (Some b) []) (orString (Some c) []) (orString (Some d) [])"
  "normalizeOptions (Some (JObject [(u ''a'', a), (u ''b'', b), (u ''c'', c), (u ''d'', d)]))
     = fourSlots (orString (Some a) []) (orString (Some b) []) (orString (Some c) []) (orString (Some d) [])"
  by (simp_all add: normalizeOptions_def getIndex_def jsOr_def orString_def u_def)

text \<open>
  C6. The test \<open>/^[A-DA-d]/\<close> accepts every code unit from \<open>A\<close> to \<open>d\<close>, so an answer that
  starts with, say, \<open>E\<close> is taken as the answer letter: for the record
  \<open>{"question":"q","options":["w","x","y","z"],"correctAnswer":"E"}\<close> the normalized
  \<open>correctAnswer\<close> is \<open>E\<close>, which is none of A, B, C, D (the four option slots are as the
  claim says).
\<close>

theorem C6_answer_letter_outside_A_to_D:
  \<open>normalizeMCQ numberToString
     (JObject [(u ''question'', JString (u ''q'')),
               (u ''options'', JArray [JString (u ''w''), JString (u ''x''), JString (u ''y''), JString (u ''z'')]),
               (u ''correctAnswer'', JString (u ''E''))])
   = Inr (Some (JObject
       [(u ''question'', JString (u ''q'')),
        (u ''options'', fourSlots (JString (u ''w'')) (JString (u ''x'')) (JString (u ''y'')) (JString (u ''z''))),
        (u ''correctAnswer'', JString (u ''E'')),
        (u ''explanation'', JString [])]))\<close>
  by (simp add: norm_eval trim_def isJsWhitespace_def u_def)


theorem C6_answer_letter_outside_A_to_D_witness:
  \<open>normalizeMCQ (\<lambda>n. n)
     (JObject [(u ''question'', JString (u ''q'')),
               (u ''options'', JArray [JString (u ''w''), JString (u ''x''), JString (u ''y''), JString (u ''z'')]),
               (u ''correctAnswer'', JString (u ''E''))])
   = Inr (Some (JObject
       [(u ''question'', JString (u ''q'')),
        (u ''options'', fourSlots (JString (u ''w'')) (JString (u ''x'')) (JString (u ''y'')) (JString (u ''z''))),
        (u ''correctAnswer'', JString (u ''E'')),
        (u ''explanation'', JString [])]))\<close>
  by (rule C6_answer_letter_outside_A_to_D)

section \<open>Properties of the cache and of the two pipelines\<close>

text \<open>
  Saving under a key that is absent appends the entry and, when the cache is full, drops the
  first one; the invariant is kept.
\<close>

lemma mapDelete_first:
  "distinct (map fst ((k, v) # rest)) \<Longrightarrow> mapDelete ((k, v) # rest) k = rest"
  by (auto simp: mapDelete_def filter_id_conv rev_image_eqI)

lemma cacheSave_new_key:
  assumes "distinct (map fst c)" and "map_of c k = None"
  shows "cacheSave c k v = (if length c \<ge> CACHE_LIMIT then tl c else c) @ [(k, v)]"
proof (cases "length c \<ge> CACHE_LIMIT")
  case False
  with assms show ?thesis by (simp add: cacheSave_def mapSet_def)
next
  case True
  then obtain k0 v0 rest where c: "c = (k0, v0) # rest"
    by (cases c) (auto simp: CACHE_LIMIT_def)
  with assms(2) have "map_of rest k = None" by (auto split: if_splits)
  with True c assms(1) mapDelete_first[of k0 v0 rest] show ?thesis
    by (simp add: cacheSave_def mapSet_def)
qed

lemma cacheInv_save_new:
  assumes "cacheInv c" and "map_of c k = None" and "v \<noteq> []"
  shows "cacheInv (cacheSave c k v)"
proof -
  from assms(1) have d: "distinct (map fst c)" by (simp add: cacheInv_def)
  from assms(2) have nk: "k \<notin> fst ` set c" by (simp add: map_of_eq_None_iff)
  show ?thesis
  proof (cases "length c \<ge> CACHE_LIMIT")
    case False
    with assms nk show ?thesis
      unfolding cacheSave_new_key[OF d assms(2)] by (auto simp: cacheInv_def)
  next
    case True
    then obtain k0 v0 rest where c: "c = (k0, v0) # rest"
      by (cases c) (auto simp: CACHE_LIMIT_def)
    with True assms nk show ?thesis
      unfolding cacheSave_new_key[OF d assms(2)] by (auto simp: cacheInv_def)
  qed
qed

text \<open>
  The block that saves to the cache keeps the invariant for every key, present or not (a key
  can be present when two requests for the same key were in flight together).
\<close>

lemma mapSet_keys:
  "map_of m k \<noteq> None \<Longrightarrow> map fst (mapSet m k v) = map fst m"
  by (auto simp: mapSet_def)

lemma mapSet_values:
  "list_all (\<lambda>(k, v). v \<noteq> []) m \<Longrightarrow> v \<noteq> [] \<Longrightarrow> list_all (\<lambda>(k, v). v \<noteq> []) (mapSet m k v)"
  by (auto simp: mapSet_def list_all_iff split: if_splits)

lemma cacheInv_mapSet:
  assumes "distinct (map fst m)" and "list_all (\<lambda>(k, v). v \<noteq> []) m" and "v \<noteq> []"
    and "length m < CACHE_LIMIT \<or> (length m \<le> CACHE_LIMIT \<and> map_of m k \<noteq> None)"
  shows "cacheInv (mapSet m k v)"
proof (cases "map_of m k")
  case None
  with assms show ?thesis
    by (auto simp: cacheInv_def mapSet_def map_of_eq_None_iff)
next
  case (Some w)
  then have "map_of m k \<noteq> None" by simp
  from mapSet_keys[OF this, of v] have "map fst (mapSet m k v) = map fst m" .
  moreover from this have "length (mapSet m k v) = length m"
    by (metis length_map)
  ultimately show ?thesis using assms mapSet_values[OF assms(2,3), of k]
    by (auto simp: cacheInv_def)
qed

lemma cacheInv_save:
  assumes "cacheInv c" and "v \<noteq> []"
  shows "cacheInv (cacheSave c k v)"
proof (cases "length c \<ge> CACHE_LIMIT")
  case False
  from assms(1) have "distinct (map fst c)" "list_all (\<lambda>(k, v). v \<noteq> []) c"
    by (simp_all add: cacheInv_def)
  from cacheInv_mapSet[OF this assms(2), of k] False show ?thesis
    by (simp add: cacheSave_def)
next
  case True
  then obtain k0 v0 rest where c: "c = (k0, v0) # rest"
    by (cases c) (auto simp: CACHE_LIMIT_def)
  from assms(1) c have d: "distinct (map fst ((k0, v0) # rest))" by (simp add: cacheInv_def)
  from assms(1) c have r: "distinct (map fst rest)" "list_all (\<lambda>(k, v). v \<noteq> []) rest"
    "length rest < CACHE_LIMIT" by (auto simp: cacheInv_def)
  from True c mapDelete_first[OF d] have "cacheSave c k v = mapSet rest k v"
    by (simp add: cacheSave_def)
  with cacheInv_mapSet[OF r(1,2) assms(2), of k] r(3) show ?thesis by simp
qed

lemma generateMCQs_cache:
  assumes "generateMCQs sha256hex provider studyMaterial difficultyCounts includeExplanation file s = (r, s')"
  shows "resultCache s' = resultCache s
         \<or> (\<exists>v. r = Inr v \<and> v \<noteq> [] \<and> file = None
                \<and> map_of (resultCache s)
                      (sha256hex (cacheKeyText studyMaterial difficultyCounts includeExplanation))
                    = None
                \<and> resultCache s' =
                    cacheSave (resultCache s)
                      (sha256hex (cacheKeyText studyMaterial difficultyCounts includeExplanation))
                      v)"
proof -
  let ?K = "sha256hex (cacheKeyText studyMaterial difficultyCounts includeExplanation)"
  obtain res calls where fb:
    "generateWithFallback (\<lambda>k. provider (callsMade s + k)) = (res, calls)"
    by (cases "generateWithFallback (\<lambda>k. provider (callsMade s + k))")
  show ?thesis
  proof (cases "file")
    case (Some f)
    show ?thesis
    proof (cases res)
      case (Inl e)
      with assms Some fb show ?thesis
        by (auto simp: generateMCQs_def split: if_splits)
    next
      case (Inr text0)
      with assms Some fb show ?thesis
        by (cases "parseGenerated text0") (auto simp: generateMCQs_def split: if_splits)
    qed
  next
    case None
    show ?thesis
    proof (cases "map_of (resultCache s) ?K")
      case (Some cached)
      with assms None show ?thesis by (auto simp: generateMCQs_def mapGet_def)
    next
      case miss: None
      show ?thesis
      proof (cases res)
        case (Inl e)
        with assms None miss fb show ?thesis
          by (auto simp: generateMCQs_def mapGet_def)
      next
        case (Inr text0)
        show ?thesis
        proof (cases "parseGenerated text0")
          case (Inl e)
          with assms None miss fb Inr show ?thesis
            by (auto simp: generateMCQs_def mapGet_def)
        next
          case valid: (Inr validMcqs)
          show ?thesis
          proof (cases "validMcqs = []")
            case True
            with assms None miss fb Inr valid have "resultCache s' = resultCache s"
              by (auto simp: generateMCQs_def mapGet_def)
            then show ?thesis by blast
          next
            case False
            with assms None miss fb Inr valid have "r = Inr validMcqs"
              and "resultCache s' = cacheSave (resultCache s) ?K validMcqs"
              by (auto simp: generateMCQs_def mapGet_def)
            with False None miss show ?thesis by blast
          qed
        qed
      qed
    qed
  qed
qed

lemma solveMCQs_cache:
  "solveMCQs numberToString provider file s = (r, s') \<Longrightarrow> resultCache s' = resultCache s"
  unfolding solveMCQs_def
  by (cases "generateWithFallback (\<lambda>k. provider (callsMade s + k))")
     (auto split: if_splits sum.splits)

text \<open>
  The segments of \<open>generateMCQs\<close>, run one after the other, are the whole call; the last
  segment changes the cache only by the block that saves; every reachable cache satisfies the
  invariant.
\<close>

lemma generateMCQs_segments:
  "generateMCQs sha256hex provider studyMaterial difficultyCounts includeExplanation file s =
     (let cacheKey = (case file of
                        None \<Rightarrow> Some (sha256hex (cacheKeyText studyMaterial difficultyCounts
                                                     includeExplanation))
                      | Some f \<Rightarrow> None)
      in case generateMCQsLookup cacheKey (resultCache s) of
           Some cached \<Rightarrow> (Inr cached, s)
         | None \<Rightarrow>
             (if file = Some (Presentation None)
              then (fst (generateMCQsResume cacheKey
                           (Inl (Error (u ''Failed to extract text from PPT file'')))
                           (resultCache s)), s)
              else (case generateWithFallback (\<lambda>k. provider (callsMade s + k)) of
                      (awaited, calls) \<Rightarrow>
                        (case generateMCQsResume cacheKey awaited (resultCache s) of
                           (r, c') \<Rightarrow>
                             (r, s\<lparr>callsMade := callsMade s + length calls,
                                    resultCache := c'\<rparr>)))))"
  unfolding generateMCQs_def generateMCQsLookup_def generateMCQsResume_def Let_def
  by (auto split: option.splits sum.splits prod.splits)

lemma generateMCQsResume_cache:
  assumes "generateMCQsResume cacheKey awaited c = (r, c')"
  shows "(if (\<exists>K v. cacheKey = Some K \<and> r = Inr v \<and> v \<noteq> [])
          then c' = cacheSave c (the cacheKey) (projr r) else c' = c)"
  using assms unfolding generateMCQsResume_def
  by (auto split: sum.splits option.splits if_splits)

lemma cacheSave_eq:
  assumes "cacheInv c"
  shows "cacheSave c k v = mapSet (if length c = CACHE_LIMIT then tl c else c) k v"
proof (cases "length c \<ge> CACHE_LIMIT")
  case False
  then show ?thesis by (simp add: cacheSave_def)
next
  case True
  with assms have l: "length c = CACHE_LIMIT" by (simp add: cacheInv_def)
  then obtain k0 v0 rest where c: "c = (k0, v0) # rest"
    by (cases c) (auto simp: CACHE_LIMIT_def)
  from assms c have "distinct (map fst ((k0, v0) # rest))" by (simp add: cacheInv_def)
  from mapDelete_first[OF this] l c show ?thesis by (simp add: cacheSave_def)
qed

lemma reachable_cacheInv: "reachable sv \<Longrightarrow> cacheInv (cache sv)"
proof (induction rule: reachable.induct)
  case start
  show ?case by (simp add: cacheInv_def)
next
  case (call sv cacheKey)
  then show ?case by simp
next
  case (resume sv i awaited r c')
  from generateMCQsResume_cache[OF resume.hyps(3)] resume.IH show ?case
    by (auto intro: cacheInv_save split: if_splits)
qed

lemma cache_eviction_at_limit:
  assumes "distinct (map fst c)" and "length c = CACHE_LIMIT" and "map_of c k = None"
  shows "cacheSave c k v = tl c @ [(k, v)]"
  using cacheSave_new_key[OF assms(1,3), of v] assms(2) by simp

lemma gen_example:
  \<open>generateMCQs (\<lambda>t. t) (\<lambda>k. Returned (u ''[{"q":"a"},7]'')) (u ''m'')
      \<lparr>easyCount = 1, mediumCount = 0, hardCount = 0\<rparr> False None
      \<lparr>resultCache = [], callsMade = 0\<rparr>
    = (Inr [JObject [(u ''q'', JString (u ''a''))]],
       \<lparr>resultCache = [(u ''m|1|0|0|false'', [JObject [(u ''q'', JString (u ''a''))]])],
        callsMade = 1\<rparr>)\<close>
  by (simp add: generateMCQs_def generateWithFallback_def MODELS_def parseGenerated_def
      isValidMcq_def cacheKeyText_def showNat.simps mapGet_def cacheSave_def mapSet_def
      CACHE_LIMIT_def json_eval clean_eval)

lemma mapSet_present:
  assumes "map_of m k \<noteq> None"
  shows "map fst (mapSet m k v) = map fst m \<and> map_of (mapSet m k v) k = Some v
         \<and> (\<forall>k'. k' \<noteq> k \<longrightarrow> map_of (mapSet m k v) k' = map_of m k')"
proof -
  have a: "map_of (map (\<lambda>(k', v'). if k' = k then (k', v) else (k', v')) m) k = Some v"
    using assms by (induction m) (auto split: if_splits)
  have b: "k' \<noteq> k \<Longrightarrow>
        map_of (map (\<lambda>(k', v'). if k' = k then (k', v) else (k', v')) m) k' = map_of m k'" for k'
    by (induction m) auto
  from a b assms show ?thesis by (auto simp: mapSet_def)
qed

lemma mapSet_absent: "map_of m k = None \<Longrightarrow> mapSet m k v = m @ [(k, v)]"
  by (simp add: mapSet_def)

lemma map_of_tl_None: "map_of c k = None \<Longrightarrow> map_of (tl c) k = None"
  by (cases c) (auto split: if_splits)

lemma mapSet_last:
  assumes "map_of A K = None"
  shows "mapSet (A @ [(K, v)]) K w = A @ [(K, w)]"
proof -
  from assms have "K \<notin> fst ` set A" by (simp add: map_of_eq_None_iff)
  then have "map (\<lambda>(k', v'). if k' = K then (k', w) else (k', v')) A = A"
    by (induction A) auto
  then show ?thesis by (simp add: mapSet_def)
qed

text \<open>
  The full cache of the example can be reached: each of its entries is stored by a call that
  misses and then resumes with the response \<open>[{"q":"a"}]\<close>.
\<close>

lemma exampleKey_fresh: "map_of (filledCache n) (exampleKey n) = None"
proof -
  have "exampleKey n \<notin> fst ` set (filledCache n)"
  proof
    assume "exampleKey n \<in> fst ` set (filledCache n)"
    then obtain i where "i < n" "exampleKey n = exampleKey i"
      by (auto simp: filledCache_def)
    then have "length (exampleKey n) = length (exampleKey i)" by simp
    with \<open>i < n\<close> show False by (simp add: exampleKey_def)
  qed
  then show ?thesis by (simp add: map_of_eq_None_iff)
qed

lemma filledCache_Suc: "filledCache (Suc n) = filledCache n @ [(exampleKey n, exampleRecords)]"
  by (simp add: filledCache_def)

lemma filledCache_distinct: "distinct (map fst (filledCache n))"
proof (induction n)
  case 0
  show ?case by (simp add: filledCache_def)
next
  case (Suc n)
  from exampleKey_fresh[of n] have "exampleKey n \<notin> fst ` set (filledCache n)"
    by (simp add: map_of_eq_None_iff)
  with Suc show ?case by (simp add: filledCache_Suc)
qed

lemma filledCache_hd: "0 < n \<Longrightarrow> hd (filledCache n) = (exampleKey 0, exampleRecords)"
  by (simp add: filledCache_def upt_conv_Cons del: upt_Suc)

lemma example_parse:
  \<open>parseGenerated (u ''[{"q":"a"}]'') = Inr exampleRecords\<close>
  by (simp add: parseGenerated_def isValidMcq_def exampleRecords_def json_eval clean_eval)

lemma example_resume:
  \<open>generateMCQsResume (Some K) (Inr (u ''[{"q":"a"}]'')) c
     = (Inr exampleRecords, cacheSave c K exampleRecords)\<close>
  by (simp add: generateMCQsResume_def example_parse) (simp add: exampleRecords_def)

lemma reachable_filled:
  "n \<le> CACHE_LIMIT \<Longrightarrow> reachable \<lparr>cache = filledCache n, awaiting = []\<rparr>"
proof (induction n)
  case 0
  show ?case using reachable.start by (simp add: filledCache_def)
next
  case (Suc n)
  let ?sv = "\<lparr>cache = filledCache n, awaiting = []\<rparr>"
  from Suc have r: "reachable ?sv" and n: "n < CACHE_LIMIT" by simp_all
  have "generateMCQsLookup (Some (exampleKey n)) (cache ?sv) = None"
    by (simp add: generateMCQsLookup_def mapGet_def exampleKey_fresh)
  from reachable.call[OF r this]
  have r1: "reachable \<lparr>cache = filledCache n, awaiting = [Some (exampleKey n)]\<rparr>" by simp
  have s: "cacheSave (filledCache n) (exampleKey n) exampleRecords = filledCache (Suc n)"
    using cacheSave_new_key[OF filledCache_distinct exampleKey_fresh, of n exampleRecords] n
    by (simp add: filledCache_Suc filledCache_def)
  have "generateMCQsResume (awaiting \<lparr>cache = filledCache n, awaiting = [Some (exampleKey n)]\<rparr> ! 0)
          (Inr (u ''[{\"q\":\"a\"}]'')) (cache \<lparr>cache = filledCache n, awaiting = [Some (exampleKey n)]\<rparr>)
        = (Inr exampleRecords, filledCache (Suc n))"
    by (simp add: example_resume s)
  from reachable.resume[OF r1 _ this] show ?case by simp
qed


text \<open>
  C8. In every state the server can reach, with calls of \<open>generateMCQs\<close> in flight in any
  number and resuming in any order, and for every resumption of one of them: the limit is 500
  and the cache holds at most that many entries before and after; no entry holds an empty
  result; a call that throws, returns no record or has no cache key (a file was uploaded) leaves
  the cache as it is; a call that returns records for its key \<open>K\<close> stores them. With \<open>kept\<close>
  the cache as it was, less its first (oldest) entry when it held 500, the new cache is \<open>kept\<close>
  with \<open>K\<close> set: \<open>K\<close> and the records appended at the end when \<open>K\<close> was absent, and, when
  another call has stored \<open>K\<close> in the meantime, the entry of \<open>K\<close> overwritten in place and every
  other entry as it was. A call that finds its key returns the stored records and changes
  nothing, the order of the entries included.
\<close>

theorem C8_cache_bounded_fifo:
  assumes "reachable sv" and "i < length (awaiting sv)"
    and "generateMCQsResume (awaiting sv ! i) awaited (cache sv) = (r, c')"
    and "kept = (if length (cache sv) = CACHE_LIMIT then tl (cache sv) else cache sv)"
  shows "CACHE_LIMIT = 500
       \<and> length (cache sv) \<le> CACHE_LIMIT \<and> length c' \<le> CACHE_LIMIT
       \<and> list_all (\<lambda>(k, v). v \<noteq> []) (cache sv) \<and> list_all (\<lambda>(k, v). v \<noteq> []) c'
       \<and> ((\<exists>e. r = Inl e) \<or> r = Inr [] \<or> awaiting sv ! i = None \<longrightarrow> c' = cache sv)
       \<and> (\<forall>K v. awaiting sv ! i = Some K \<and> r = Inr v \<and> v \<noteq> [] \<longrightarrow>
              c' = mapSet kept K v
            \<and> (map_of (cache sv) K = None \<longrightarrow> c' = kept @ [(K, v)])
            \<and> (map_of kept K \<noteq> None \<longrightarrow>
                  map fst c' = map fst kept \<and> map_of c' K = Some v
                  \<and> (\<forall>k'. k' \<noteq> K \<longrightarrow> map_of c' k' = map_of kept k')))
       \<and> (\<forall>cached n.
              map_of (cache sv) (sha256hex (cacheKeyText studyMaterial difficultyCounts includeExplanation))
                = Some cached \<longrightarrow>
              generateMCQsLookup
                  (Some (sha256hex (cacheKeyText studyMaterial difficultyCounts includeExplanation)))
                  (cache sv) = Some cached
            \<and> generateMCQs sha256hex provider studyMaterial difficultyCounts includeExplanation None
                  \<lparr>resultCache = cache sv, callsMade = n\<rparr>
                = (Inr cached, \<lparr>resultCache = cache sv, callsMade = n\<rparr>))"
proof -
  from assms(1) have inv: "cacheInv (cache sv)" by (rule reachable_cacheInv)
  from assms(1,2,3) have "reachable \<lparr>cache = c', awaiting = take i (awaiting sv) @ drop (Suc i) (awaiting sv)\<rparr>"
    by (rule reachable.resume)
  from reachable_cacheInv[OF this] have inv': "cacheInv c'" by simp
  have lim: "CACHE_LIMIT = 500" by (simp add: CACHE_LIMIT_def)
  from inv have le: "length (cache sv) \<le> CACHE_LIMIT"
    and ne: "list_all (\<lambda>(k, v). v \<noteq> []) (cache sv)" by (simp_all add: cacheInv_def)
  from inv' have le': "length c' \<le> CACHE_LIMIT"
    and ne': "list_all (\<lambda>(k, v). v \<noteq> []) c'" by (simp_all add: cacheInv_def)
  note eff = generateMCQsResume_cache[OF assms(3)]
  have nostore: "(\<exists>e. r = Inl e) \<or> r = Inr [] \<or> awaiting sv ! i = None \<longrightarrow> c' = cache sv"
    using eff by (auto split: if_splits)
  have store: "\<forall>K v. awaiting sv ! i = Some K \<and> r = Inr v \<and> v \<noteq> [] \<longrightarrow>
              c' = mapSet kept K v
            \<and> (map_of (cache sv) K = None \<longrightarrow> c' = kept @ [(K, v)])
            \<and> (map_of kept K \<noteq> None \<longrightarrow>
                  map fst c' = map fst kept \<and> map_of c' K = Some v
                  \<and> (\<forall>k'. k' \<noteq> K \<longrightarrow> map_of c' k' = map_of kept k'))"
  proof (intro allI impI)
    fix K v assume a: "awaiting sv ! i = Some K \<and> r = Inr v \<and> v \<noteq> []"
    with eff have "c' = cacheSave (cache sv) K v" by auto
    with cacheSave_eq[OF inv, of K v] assms(4) have c: "c' = mapSet kept K v" by simp
    have n: "map_of (cache sv) K = None \<longrightarrow> c' = kept @ [(K, v)]"
    proof
      assume "map_of (cache sv) K = None"
      then have "map_of kept K = None" using assms(4) by (auto intro: map_of_tl_None)
      with c show "c' = kept @ [(K, v)]" by (simp add: mapSet_absent)
    qed
    have p: "map_of kept K \<noteq> None \<longrightarrow>
                  map fst c' = map fst kept \<and> map_of c' K = Some v
                  \<and> (\<forall>k'. k' \<noteq> K \<longrightarrow> map_of c' k' = map_of kept k')"
      unfolding c using mapSet_present[of kept K v] by blast
    from c n p show "c' = mapSet kept K v
            \<and> (map_of (cache sv) K = None \<longrightarrow> c' = kept @ [(K, v)])
            \<and> (map_of kept K \<noteq> None \<longrightarrow>
                  map fst c' = map fst kept \<and> map_of c' K = Some v
                  \<and> (\<forall>k'. k' \<noteq> K \<longrightarrow> map_of c' k' = map_of kept k'))" by blast
  qed
  have hit: "\<forall>cached n.
              map_of (cache sv) (sha256hex (cacheKeyText studyMaterial difficultyCounts includeExplanation))
                = Some cached \<longrightarrow>
              generateMCQsLookup
                  (Some (sha256hex (cacheKeyText studyMaterial difficultyCounts includeExplanation)))
                  (cache sv) = Some cached
            \<and> generateMCQs sha256hex provider studyMaterial difficultyCounts includeExplanation None
                  \<lparr>resultCache = cache sv, callsMade = n\<rparr>
                = (Inr cached, \<lparr>resultCache = cache sv, callsMade = n\<rparr>)"
    by (simp add: generateMCQsLookup_def generateMCQs_def mapGet_def)
  show ?thesis
    apply (intro conjI)
           apply (rule lim)
          apply (rule le)
         apply (rule le')
        apply (rule ne)
       apply (rule ne')
      apply (rule nostore)
     apply (rule store)
    apply (rule hit)
    done
qed

theorem C8_cache_bounded_fifo_witness:
  \<open>reachable \<lparr>cache = filledCache CACHE_LIMIT,
               awaiting = [Some (exampleKey CACHE_LIMIT), Some (exampleKey CACHE_LIMIT)]\<rparr>
   \<and> length (filledCache CACHE_LIMIT) = 500
   \<and> hd (filledCache CACHE_LIMIT) = (exampleKey 0, exampleRecords)
   \<and> generateMCQsResume (Some (exampleKey CACHE_LIMIT)) (Inr (u ''[{"q":"a"}]''))
         (filledCache CACHE_LIMIT)
       = (Inr exampleRecords,
          tl (filledCache CACHE_LIMIT) @ [(exampleKey CACHE_LIMIT, exampleRecords)])
   \<and> length (tl (filledCache CACHE_LIMIT) @ [(exampleKey CACHE_LIMIT, exampleRecords)]) = 500
   \<and> reachable \<lparr>cache = tl (filledCache CACHE_LIMIT) @ [(exampleKey CACHE_LIMIT, exampleRecords)],
                 awaiting = [Some (exampleKey CACHE_LIMIT)]\<rparr>
   \<and> generateMCQsResume (Some (exampleKey CACHE_LIMIT)) (Inr (u ''[{"q":"b"}]''))
         (tl (filledCache CACHE_LIMIT) @ [(exampleKey CACHE_LIMIT, exampleRecords)])
       = (Inr [JObject [(u ''q'', JString (u ''b''))]],
          tl (tl (filledCache CACHE_LIMIT))
            @ [(exampleKey CACHE_LIMIT, [JObject [(u ''q'', JString (u ''b''))]])])
   \<and> length (tl (tl (filledCache CACHE_LIMIT))
               @ [(exampleKey CACHE_LIMIT, [JObject [(u ''q'', JString (u ''b''))]])]) = 499\<close>
proof -
  let ?c = "filledCache CACHE_LIMIT"
  let ?K = "exampleKey CACHE_LIMIT"
  let ?w = "[JObject [(u ''q'', JString (u ''b''))]]"
  let ?sv = "\<lparr>cache = ?c, awaiting = [Some ?K, Some ?K]\<rparr>"
  let ?c1 = "tl ?c @ [(?K, exampleRecords)]"
  let ?sv1 = "\<lparr>cache = ?c1, awaiting = [Some ?K]\<rparr>"
  let ?c2 = "tl (tl ?c) @ [(?K, ?w)]"
  have miss: "generateMCQsLookup (Some ?K) ?c = None"
    by (simp add: generateMCQsLookup_def mapGet_def exampleKey_fresh)
  from reachable.call[OF reachable_filled[OF order_refl], of "Some ?K"] miss
  have "reachable \<lparr>cache = ?c, awaiting = [Some ?K]\<rparr>" by simp
  from reachable.call[OF this, of "Some ?K"] miss
  have r: "reachable ?sv" by simp
  have len: "length ?c = CACHE_LIMIT" by (simp add: filledCache_def)
  have l500: "length ?c = 500" by (simp add: filledCache_def CACHE_LIMIT_def)
  have h: "hd ?c = (exampleKey 0, exampleRecords)"
    by (rule filledCache_hd) (simp add: CACHE_LIMIT_def)
  have fresh: "map_of ?c ?K = None" by (rule exampleKey_fresh)
  obtain res c' where e: "generateMCQsResume (awaiting ?sv ! 0) (Inr (u ''[{\"q\":\"a\"}]'')) (cache ?sv) = (res, c')"
    by (cases "generateMCQsResume (awaiting ?sv ! 0) (Inr (u ''[{\"q\":\"a\"}]'')) (cache ?sv)")
  then have res: "res = Inr exampleRecords" by (simp add: example_resume)
  have k: "tl ?c = (if length (cache ?sv) = CACHE_LIMIT then tl (cache ?sv) else cache ?sv)"
    by (simp add: len)
  from C8_cache_bounded_fifo [OF r _ e k]
  have "awaiting ?sv ! 0 = Some ?K \<and> res = Inr exampleRecords \<and> exampleRecords \<noteq> [] \<longrightarrow>
          (map_of (cache ?sv) ?K = None \<longrightarrow> c' = ?c1)"
    by simp
  then have c': "c' = ?c1" by (simp add: res fresh exampleRecords_def)
  from e res c' have g1: "generateMCQsResume (Some ?K) (Inr (u ''[{\"q\":\"a\"}]'')) ?c
       = (Inr exampleRecords, ?c1)" by simp
  have l1: "length ?c1 = 500" by (simp add: l500)
  have l1': "length ?c1 = CACHE_LIMIT" using l500 by (simp add: CACHE_LIMIT_def)
  from reachable.resume[OF r _ e] have r1: "reachable ?sv1" by (simp add: c')
  have p2: \<open>parseGenerated (u ''[{"q":"b"}]'') = Inr ?w\<close>
    by (simp add: parseGenerated_def isValidMcq_def json_eval clean_eval)
  obtain res2 c2 where e2: "generateMCQsResume (awaiting ?sv1 ! 0) (Inr (u ''[{\"q\":\"b\"}]'')) (cache ?sv1) = (res2, c2)"
    by (cases "generateMCQsResume (awaiting ?sv1 ! 0) (Inr (u ''[{\"q\":\"b\"}]'')) (cache ?sv1)")
  then have res2: "res2 = Inr ?w" by (simp add: generateMCQsResume_def p2)
  have ne: "tl ?c \<noteq> []" using l500 by (cases ?c) auto
  then have t1: "tl ?c1 = tl (tl ?c) @ [(?K, exampleRecords)]" by simp
  have k2: "tl (tl ?c) @ [(?K, exampleRecords)]
              = (if length (cache ?sv1) = CACHE_LIMIT then tl (cache ?sv1) else cache ?sv1)"
    using l1' t1 by simp
  from C8_cache_bounded_fifo [OF r1 _ e2 k2]
  have "awaiting ?sv1 ! 0 = Some ?K \<and> res2 = Inr ?w \<and> ?w \<noteq> [] \<longrightarrow>
          c2 = mapSet (tl (tl ?c) @ [(?K, exampleRecords)]) ?K ?w"
    by simp
  then have "c2 = mapSet (tl (tl ?c) @ [(?K, exampleRecords)]) ?K ?w" by (simp add: res2)
  also have "\<dots> = ?c2"
    by (rule mapSet_last) (intro map_of_tl_None fresh)
  finally have c2: "c2 = ?c2" .
  from e2 res2 c2 have g2: "generateMCQsResume (Some ?K) (Inr (u ''[{\"q\":\"b\"}]'')) ?c1
       = (Inr ?w, ?c2)" by simp
  have l2: "length ?c2 = 499" by (simp add: l500)
  from r l500 h g1 l1 r1 g2 l2 show ?thesis by (simp only: simp_thms)
qed


text \<open>
  The wrapper-key probing of the solving path: when the parsed value is not an array and none
  of the four keys holds an array, \<open>solveMCQs\<close> fails with the format error. The generation
  path throws a \<open>TypeError\<close> for every parsed value that is not an array.
\<close>

lemma probeKeys_none:
  "list_all (\<lambda>k. case getProp v k of Some (JArray xs) \<Rightarrow> False | _ \<Rightarrow> True) ks
     \<Longrightarrow> probeKeys ks v = v"
  by (induction ks) (auto split: option.splits json.splits)

lemma solving_rejects_unwrapped:
  assumes "JSON_parse (cleanJSONResponse text0) = Some v" and "\<not> isArray v"
    and "list_all (\<lambda>k. case getProp v k of Some (JArray xs) \<Rightarrow> False | _ \<Rightarrow> True) possibleArrays"
  shows "parseSolved numberToString text0
           = Inl (Error (u ''Invalid response format: expected array of MCQs''))"
  using assms probeKeys_none[OF assms(3)]
  by (cases v) (simp_all add: parseSolved_def Let_def)

lemma generation_never_probes:
  assumes "JSON_parse (cleanJSONResponse text0) = Some v" and "\<not> isArray v"
  shows "parseGenerated text0 = Inl TypeError"
  using assms by (cases v) (simp_all add: parseGenerated_def)


text \<open>
  C7. On the generation path nothing probes wrapper keys: for the raw response
  \<open>{"questions":[{"question":"q"}]}\<close> the parsed value is an object whose \<open>questions\<close> member
  is an array, \<open>generateMCQs\<close> fails with the \<open>TypeError\<close> of \<open>mcqs.filter\<close>, and the solving
  path, given the same response, finds the array and returns its normalized record.
\<close>

theorem C7_generation_path_has_no_probing:
  \<open>JSON_parse (cleanJSONResponse (u ''{"questions":[{"question":"q"}]}''))
     = Some (JObject [(u ''questions'', JArray [JObject [(u ''question'', JString (u ''q''))]])])
   \<and> parseGenerated (u ''{"questions":[{"question":"q"}]}'') = Inl TypeError
   \<and> fst (generateMCQs sha256hex (\<lambda>k. Returned (u ''{"questions":[{"question":"q"}]}''))
             studyMaterial difficultyCounts includeExplanation (Some Attachment) s)
       = Inl (Wrapped (u ''Failed to generate MCQs: '') TypeError)
   \<and> parseSolved numberToString (u ''{"questions":[{"question":"q"}]}'')
       = Inr [JObject [(u ''question'', JString (u ''q'')),
                       (u ''options'', fourSlots (JString []) (JString []) (JString []) (JString [])),
                       (u ''correctAnswer'', JString (u ''A'')),
                       (u ''explanation'', JString [])]]\<close>
proof -
  have p: \<open>JSON_parse (cleanJSONResponse (u ''{"questions":[{"question":"q"}]}''))
     = Some (JObject [(u ''questions'', JArray [JObject [(u ''question'', JString (u ''q''))]])])\<close>
    by (simp add: json_eval clean_eval)
  have g: \<open>parseGenerated (u ''{"questions":[{"question":"q"}]}'') = Inl TypeError\<close>
    by (simp add: parseGenerated_def p)
  have f: \<open>generateWithFallback (\<lambda>k. Returned (u ''{"questions":[{"question":"q"}]}'') :: ustring outcome)
             = (Inr (u ''{"questions":[{"question":"q"}]}''), [(u ''gemini-1.5-flash-latest'', 1)])\<close>
    by (simp add: generateWithFallback_def MODELS_def)
  have h: \<open>fst (generateMCQs sha256hex (\<lambda>k. Returned (u ''{"questions":[{"question":"q"}]}''))
             studyMaterial difficultyCounts includeExplanation (Some Attachment) s)
       = Inl (Wrapped (u ''Failed to generate MCQs: '') TypeError)\<close>
    by (simp add: generateMCQs_def f g)
  have n: \<open>normalizeMCQ numberToString (JObject [(u ''question'', JString (u ''q''))])
      = Inr (Some (JObject [(u ''question'', JString (u ''q'')),
                       (u ''options'', fourSlots (JString []) (JString []) (JString []) (JString [])),
                       (u ''correctAnswer'', JString (u ''A'')),
                       (u ''explanation'', JString [])]))\<close>
    by (simp add: norm_eval trim_def isJsWhitespace_def u_def)
  have s: \<open>parseSolved numberToString (u ''{"questions":[{"question":"q"}]}'')
       = Inr [JObject [(u ''question'', JString (u ''q'')),
                       (u ''options'', fourSlots (JString []) (JString []) (JString []) (JString [])),
                       (u ''correctAnswer'', JString (u ''A'')),
                       (u ''explanation'', JString [])]]\<close>
    unfolding parseSolved_def p
    by (simp add: possibleArrays_def n List.map_filter_simps)
  from p g h s show ?thesis by blast
qed


text \<open>
  What \<open>generateMCQs\<close> and \<open>solveMCQs\<close> return when they return.
\<close>

lemma map_of_mapSet: "map_of (mapSet m k v) k = Some v"
proof (cases "map_of m k")
  case None
  then show ?thesis by (simp add: mapSet_def map_add_def)
next
  case (Some w)
  have "map_of m k \<noteq> None \<Longrightarrow>
        map_of (map (\<lambda>(k', v'). if k' = k then (k', v) else (k', v')) m) k = Some v"
    by (induction m) (auto split: if_splits)
  with Some show ?thesis by (simp add: mapSet_def)
qed

lemma map_of_cacheSave: "map_of (cacheSave c k v) k = Some v"
  by (simp add: cacheSave_def map_of_mapSet)

lemma normalizeAll_Inr:
  "normalizeAll numberToString xs = Inr normalized
     \<Longrightarrow> map (normalizeMCQ numberToString) xs = map Inr normalized"
  by (induction xs arbitrary: normalized) (auto split: sum.splits)

lemma isValidMcq_iff: "isValidMcq v = ((\<exists>ps. v = JObject ps) \<or> (\<exists>xs. v = JArray xs))"
  by (cases v) (auto simp: isValidMcq_def)

lemma generateMCQs_returns:
  assumes "generateMCQs sha256hex provider studyMaterial difficultyCounts includeExplanation file s
             = (Inr records, s')"
    and "K = sha256hex (cacheKeyText studyMaterial difficultyCounts includeExplanation)"
  shows "(file = None \<and> map_of (resultCache s) K = Some records \<and> s' = s)
       \<or> (\<exists>text0 calls xs.
             generateWithFallback (\<lambda>k. provider (callsMade s + k)) = (Inr text0, calls)
           \<and> JSON_parse (cleanJSONResponse text0) = Some (JArray xs)
           \<and> records = filter isValidMcq xs
           \<and> (file = None \<and> records \<noteq> [] \<longrightarrow> map_of (resultCache s') K = Some records))"
proof -
  obtain res calls where fb:
    "generateWithFallback (\<lambda>k. provider (callsMade s + k)) = (res, calls)"
    by (cases "generateWithFallback (\<lambda>k. provider (callsMade s + k))")
  have fresh: ?thesis
    if miss: "file \<noteq> None \<or> map_of (resultCache s) K = None"
  proof (cases res)
    case (Inl e)
    with assms fb miss show ?thesis
      by (auto simp: generateMCQs_def mapGet_def split: option.splits if_splits)
  next
    case (Inr text0)
    show ?thesis
    proof (cases "parseGenerated text0")
      case (Inl e)
      with assms fb miss Inr show ?thesis
        by (auto simp: generateMCQs_def mapGet_def split: option.splits if_splits)
    next
      case valid: (Inr validMcqs)
      from assms fb miss Inr valid have rec: "records = validMcqs"
        and cache: "file = None \<and> records \<noteq> [] \<longrightarrow> resultCache s' = cacheSave (resultCache s) K records"
        by (auto simp: generateMCQs_def mapGet_def split: option.splits if_splits)
      from valid obtain xs where xs: "JSON_parse (cleanJSONResponse text0) = Some (JArray xs)"
        and v: "validMcqs = filter isValidMcq xs"
        by (auto simp: parseGenerated_def Let_def split: option.splits json.splits if_splits)
      from cache have "file = None \<and> records \<noteq> [] \<longrightarrow> map_of (resultCache s') K = Some records"
        by (auto simp: map_of_cacheSave)
      with fb Inr xs v rec show ?thesis by blast
    qed
  qed
  show ?thesis
  proof (cases "file = None \<and> map_of (resultCache s) K \<noteq> None")
    case True
    with assms show ?thesis by (auto simp: generateMCQs_def mapGet_def)
  next
    case False
    then have "file \<noteq> None \<or> map_of (resultCache s) K = None" by auto
    then show ?thesis by (rule fresh)
  qed
qed

lemma solveMCQs_returns:
  assumes "solveMCQs numberToString provider file s = (Inr solved, s')"
  shows "\<exists>text0 calls parsed xs normalized.
             generateWithFallback (\<lambda>k. provider (callsMade s + k)) = (Inr text0, calls)
           \<and> JSON_parse (cleanJSONResponse text0) = Some parsed
           \<and> (if isArray parsed then parsed else probeKeys possibleArrays parsed) = JArray xs
           \<and> map (normalizeMCQ numberToString) xs = map Inr normalized
           \<and> solved = List.map_filter (\<lambda>mcq. mcq) normalized"
proof -
  obtain res calls where fb:
    "generateWithFallback (\<lambda>k. provider (callsMade s + k)) = (res, calls)"
    by (cases "generateWithFallback (\<lambda>k. provider (callsMade s + k))")
  show ?thesis
  proof (cases res)
    case (Inl e)
    with assms fb show ?thesis by (auto simp: solveMCQs_def split: if_splits)
  next
    case (Inr text0)
    with assms fb have ps: "parseSolved numberToString text0 = Inr solved"
      by (auto simp: solveMCQs_def split: if_splits sum.splits)
    then obtain parsed where p: "JSON_parse (cleanJSONResponse text0) = Some parsed"
      by (auto simp: parseSolved_def split: option.splits)
    let ?mcqs = "if \<not> isArray parsed \<and> truthy parsed \<and> typeofObject parsed
                 then probeKeys possibleArrays parsed else parsed"
    from ps p obtain xs where xs: "?mcqs = JArray xs"
      by (cases ?mcqs) (auto simp: parseSolved_def Let_def)
    from ps p xs obtain normalized where n: "normalizeAll numberToString xs = Inr normalized"
      and sv: "solved = List.map_filter (\<lambda>mcq. mcq) normalized"
      by (cases "normalizeAll numberToString xs")
         (auto simp: parseSolved_def Let_def split: if_splits)
    have "(if isArray parsed then parsed else probeKeys possibleArrays parsed) = JArray xs"
      using xs by (cases parsed) (auto split: if_splits)
    with fb Inr p normalizeAll_Inr[OF n] sv show ?thesis by blast
  qed
qed

section \<open>Properties of the fallback engine\<close>

text \<open>
  One model's attempts: between one and three calls with consecutive attempt numbers, all but
  the last failed with a transient error, and the last one returned, failed with another error,
  or was the third attempt.
\<close>

lemma attemptLoop_shape:
  "1 \<le> a \<Longrightarrow> a \<le> 3 \<Longrightarrow> attemptLoop p m a = (fin, cs) \<Longrightarrow>
     cs \<noteq> [] \<and> a + length cs \<le> 4 \<and> cs = map (Pair m) [a ..< a + length cs]
     \<and> (\<forall>i. Suc i < length cs \<longrightarrow> (\<exists>e. p i = Threw e \<and> transient e))
     \<and> (case fin of Return r \<Rightarrow> p (length cs - 1) = Returned r
          | Throw e \<Rightarrow> p (length cs - 1) = Threw e \<and> (transient e \<longrightarrow> a + length cs = 4)
          | Exit \<Rightarrow> False)"
proof (induction p m a arbitrary: fin cs rule: attemptLoop.induct)
  case (1 provider modelName attempt)
  show ?case
  proof (cases "provider 0")
    case (Returned r)
    with "1.prems" show ?thesis by (auto simp: upt_rec)
  next
    case (Threw e)
    show ?thesis
    proof (cases "(isQuotaError e \<or> isOverloaded e) \<and> attempt < 3")
      case False
      with Threw "1.prems" show ?thesis by (auto simp: upt_rec transient_def)
    next
      case True
      obtain fin' cs' where r: "attemptLoop (provider \<circ> Suc) modelName (attempt + 1) = (fin', cs')"
        by (cases "attemptLoop (provider \<circ> Suc) modelName (attempt + 1)")
      from True have a3: "attempt + 1 \<le> 3" "1 \<le> attempt + 1" by auto
      from "1.prems" have "attempt \<le> 3" by simp
      note IH = "1.IH"[OF this Threw True a3(2) a3(1) r]
      from "1.prems" Threw True r have fin: "fin = fin'" and cs: "cs = (modelName, attempt) # cs'"
        by auto
      have c1: "cs \<noteq> [] \<and> attempt + length cs \<le> 4 \<and> cs = map (Pair modelName) [attempt ..< attempt + length cs]"
      proof -
        from IH have a: "cs' \<noteq> []" and b: "attempt + 1 + length cs' \<le> 4"
          and c: "cs' = map (Pair modelName) [attempt + 1 ..< attempt + 1 + length cs']" by blast+
        have "[attempt ..< attempt + length cs] = attempt # [attempt + 1 ..< attempt + 1 + length cs']"
          using cs upt_conv_Cons[of attempt "attempt + length cs"] by (simp del: upt_Suc)
        with c cs b show ?thesis by simp
      qed
      have c2: "\<forall>i. Suc i < length cs \<longrightarrow> (\<exists>e. provider i = Threw e \<and> transient e)"
      proof (intro allI impI)
        fix i assume "Suc i < length cs"
        show "\<exists>e. provider i = Threw e \<and> transient e"
        proof (cases i)
          case 0 with Threw True show ?thesis by (auto simp: transient_def)
        next
          case (Suc j)
          with \<open>Suc i < length cs\<close> cs have "Suc j < length cs'" by simp
          with IH Suc show ?thesis by auto
        qed
      qed
      have c3: "(case fin of Return r \<Rightarrow> provider (length cs - 1) = Returned r
          | Throw e \<Rightarrow> provider (length cs - 1) = Threw e \<and> (transient e \<longrightarrow> attempt + length cs = 4)
          | Exit \<Rightarrow> False)"
      proof -
        from IH have ne: "cs' \<noteq> []" and fc: "(case fin' of Return r \<Rightarrow> (provider \<circ> Suc) (length cs' - 1) = Returned r
          | Throw e \<Rightarrow> (provider \<circ> Suc) (length cs' - 1) = Threw e \<and> (transient e \<longrightarrow> attempt + 1 + length cs' = 4)
          | Exit \<Rightarrow> False)" by blast+
        from ne cs have l: "length cs - 1 = Suc (length cs' - 1)" "attempt + length cs = attempt + 1 + length cs'"
          by (cases cs'; simp)+
        show ?thesis unfolding fin l using fc by (cases fin') simp_all
      qed
      from c1 c2 c3 show ?thesis by blast
    qed
  qed
qed


lemma attemptLoop_block:
  assumes "attemptLoop p m 1 = (fin, cs)"
  shows "\<exists>k. 1 \<le> k \<and> k \<le> 3 \<and> length cs = k \<and> cs = map (Pair m) [1..<Suc k]
     \<and> (\<forall>i. Suc i < k \<longrightarrow> (\<exists>e. p i = Threw e \<and> transient e))
     \<and> (case fin of Return r \<Rightarrow> p (k - 1) = Returned r
          | Throw e \<Rightarrow> p (k - 1) = Threw e \<and> (transient e \<longrightarrow> k = 3)
          | Exit \<Rightarrow> False)"
proof -
  from attemptLoop_shape[OF _ _ assms] have
    a: "cs \<noteq> []" and b: "1 + length cs \<le> 4" and c: "cs = map (Pair m) [1 ..< 1 + length cs]"
    and d: "\<forall>i. Suc i < length cs \<longrightarrow> (\<exists>e. p i = Threw e \<and> transient e)"
    and e: "(case fin of Return r \<Rightarrow> p (length cs - 1) = Returned r
          | Throw e \<Rightarrow> p (length cs - 1) = Threw e \<and> (transient e \<longrightarrow> 1 + length cs = 4)
          | Exit \<Rightarrow> False)" by simp_all
  from a have "1 \<le> length cs" by (cases cs) auto
  moreover from b have "length cs \<le> 3" by simp
  moreover from c have "cs = map (Pair m) [1..<Suc (length cs)]" by simp
  moreover from e have "(case fin of Return r \<Rightarrow> p (length cs - 1) = Returned r
          | Throw e \<Rightarrow> p (length cs - 1) = Threw e \<and> (transient e \<longrightarrow> length cs = 3)
          | Exit \<Rightarrow> False)" by (cases fin) auto
  ultimately show ?thesis using d by blast
qed

text \<open>The loop over the models: the shape of the call log, its last call, and its steps.\<close>

lemma runShape_Nil [simp]: "runShape ms [] = []" "runShape [] ks = []"
  by (simp_all add: runShape_def)

lemma runShape_Cons [simp]:
  "runShape (m # ms) (k # ks) = map (Pair m) [1..<Suc k] @ runShape ms ks"
  by (simp add: runShape_def)

lemma modelLoop_shape:
  "modelLoop p ms le = (res, calls) \<Longrightarrow>
     \<exists>ks. length ks \<le> length ms \<and> list_all (\<lambda>k. 1 \<le> k \<and> k \<le> 3) ks
        \<and> calls = runShape ms ks \<and> (succeeded res \<or> length ks = length ms)"
proof (induction ms arbitrary: p le res calls)
  case Nil
  then show ?case by (intro exI[of _ "[]"]) auto
next
  case (Cons m ms)
  obtain fin cs where a: "attemptLoop p m 1 = (fin, cs)" by (cases "attemptLoop p m 1")
  from attemptLoop_block[OF a] obtain k where k: "1 \<le> k" "k \<le> 3" "cs = map (Pair m) [1..<Suc k]"
    and f: "fin \<noteq> Exit" by (cases fin) auto
  show ?case
  proof (cases fin)
    case (Return r)
    with Cons.prems a have "res = Inr r" "calls = cs" by auto
    with k show ?thesis by (intro exI[of _ "[k]"]) auto
  next
    case (Throw e)
    obtain res' calls' where r: "modelLoop (\<lambda>j. p (length cs + j)) ms (Some e) = (res', calls')"
      by (cases "modelLoop (\<lambda>j. p (length cs + j)) ms (Some e)")
    with Cons.prems a Throw have rc: "res = res'" "calls = cs @ calls'" by auto
    from Cons.IH[OF r] obtain ks where "length ks \<le> length ms" "list_all (\<lambda>k. 1 \<le> k \<and> k \<le> 3) ks"
       "calls' = runShape ms ks" "succeeded res' \<or> length ks = length ms" by blast
    with k rc show ?thesis by (intro exI[of _ "k # ks"]) auto
  next
    case Exit with f show ?thesis by simp
  qed
qed

lemma runShape_hd:
  "list_all (\<lambda>k. 1 \<le> k \<and> k \<le> 3) ks \<Longrightarrow> runShape ms ks \<noteq> [] \<Longrightarrow> snd (runShape ms ks ! 0) = 1"
  by (cases ms; cases ks) (auto simp: upt_conv_Cons simp del: upt_Suc)

lemma modelLoop_last:
  "modelLoop p ms le = (res, calls) \<Longrightarrow>
     (if calls = [] then res = Inl (Error (u ''All models failed. Last error: '' @
                  (case le of Some e \<Rightarrow> message e | None \<Rightarrow> u ''Unknown error'')))
      else (case p (length calls - 1) of Returned r \<Rightarrow> res = Inr r
            | Threw e \<Rightarrow> res = Inl (Error (u ''All models failed. Last error: '' @ message e))
                 \<and> (transient e \<longrightarrow> snd (last calls) = 3)))"
proof (induction ms arbitrary: p le res calls)
  case Nil
  then show ?case by auto
next
  case (Cons m ms)
  obtain fin cs where a: "attemptLoop p m 1 = (fin, cs)" by (cases "attemptLoop p m 1")
  from attemptLoop_block[OF a] obtain k where k: "1 \<le> k" "k \<le> 3" "length cs = k" "cs = map (Pair m) [1..<Suc k]"
    and f: "(case fin of Return r \<Rightarrow> p (k - 1) = Returned r
          | Throw e \<Rightarrow> p (k - 1) = Threw e \<and> (transient e \<longrightarrow> k = 3)
          | Exit \<Rightarrow> False)" by blast
  from k have ne: "cs \<noteq> []" by auto
  from k have lst: "snd (last cs) = k" by (simp add: last_map)
  show ?case
  proof (cases fin)
    case (Return r)
    with Cons.prems a have "res = Inr r" "calls = cs" by auto
    with k f Return ne show ?thesis by simp
  next
    case (Throw e)
    obtain res' calls' where r: "modelLoop (\<lambda>j. p (length cs + j)) ms (Some e) = (res', calls')"
      by (cases "modelLoop (\<lambda>j. p (length cs + j)) ms (Some e)")
    with Cons.prems a Throw have rc: "res = res'" "calls = cs @ calls'" by auto
    note IH = Cons.IH[OF r]
    show ?thesis
    proof (cases "calls' = []")
      case True
      with IH rc f Throw k ne lst show ?thesis by simp
    next
      case False
      then have "length cs + (length calls' - 1) = length calls - 1" using rc by (cases calls') auto
      with IH False rc show ?thesis by (simp split: outcome.splits)
    qed
  next
    case Exit with f show ?thesis by simp
  qed
qed


lemma block_nth: "i < k \<Longrightarrow> map (Pair m) [1..<Suc k] ! i = (m, Suc i)"
  by (simp del: upt_Suc)

lemma modelLoop_steps:
  "modelLoop p ms le = (res, calls) \<Longrightarrow> Suc i < length calls \<Longrightarrow>
     \<exists>e. p i = Threw e \<and>
         followsFailure e (calls ! i) (calls ! Suc i)"
proof (induction ms arbitrary: p le res calls i)
  case Nil
  then show ?case by auto
next
  case (Cons m ms)
  obtain fin cs where a: "attemptLoop p m 1 = (fin, cs)" by (cases "attemptLoop p m 1")
  from attemptLoop_block[OF a] obtain k where k: "1 \<le> k" "k \<le> 3" "length cs = k" "cs = map (Pair m) [1..<Suc k]"
    and tr: "\<forall>i. Suc i < k \<longrightarrow> (\<exists>e. p i = Threw e \<and> transient e)"
    and f: "(case fin of Return r \<Rightarrow> p (k - 1) = Returned r
          | Throw e \<Rightarrow> p (k - 1) = Threw e \<and> (transient e \<longrightarrow> k = 3)
          | Exit \<Rightarrow> False)" by blast
  have inblock: "\<exists>e. p i = Threw e \<and>
         followsFailure e (cs ! i) (cs ! Suc i)" if "Suc i < k" for i
  proof -
    from tr that obtain e where e: "p i = Threw e" "transient e" by blast
    from that have "i < k" by simp
    from block_nth[OF this, of m] block_nth[OF that, of m] k(4) have "cs ! i = (m, Suc i)" "cs ! Suc i = (m, Suc (Suc i))" by simp_all
    with e that k(2) show ?thesis by (simp add: followsFailure_def)
  qed
  show ?case
  proof (cases fin)
    case (Return r)
    with Cons.prems a have rc: "res = Inr r" "calls = cs" by auto
    with Cons.prems(2) k(3) have "Suc i < k" by simp
    from inblock[OF this] rc(2) show ?thesis by simp
  next
    case (Throw e)
    obtain res' calls' where r: "modelLoop (\<lambda>j. p (length cs + j)) ms (Some e) = (res', calls')"
      by (cases "modelLoop (\<lambda>j. p (length cs + j)) ms (Some e)")
    with Cons.prems a Throw have rc: "res = res'" "calls = cs @ calls'" by auto
    from modelLoop_shape[OF r] obtain ks where ks: "list_all (\<lambda>k. 1 \<le> k \<and> k \<le> 3) ks"
       "calls' = runShape ms ks" by blast
    consider "Suc i < k" | "Suc i = k" | "k \<le> i" by linarith
    then show ?thesis
    proof cases
      case 1
      with inblock[OF 1] rc(2) k(3) show ?thesis by (simp add: nth_append)
    next
      case 2
      with Cons.prems(2) rc(2) k(3) have ne: "calls' \<noteq> []" by auto
      from 2 have "i < k" by simp
      from block_nth[OF this, of m] k(4) have "cs ! i = (m, Suc i)" by simp
      with 2 k(3) rc(2) have ci: "calls ! i = (m, k)" by (simp add: nth_append)
      from 2 k(3) rc(2) have "calls ! Suc i = calls' ! 0" by (simp add: nth_append)
      with runShape_hd[OF ks(1)] ne ks(2) have "snd (calls ! Suc i) = 1" by simp
      moreover from f Throw 2 have "p i = Threw e" "transient e \<longrightarrow> k = 3" by auto
      ultimately show ?thesis using ci by (auto simp: followsFailure_def)
    next
      case 3
      with Cons.prems(2) rc(2) k(3) have "Suc (i - k) < length calls'" by auto
      from Cons.IH[OF r this] 3 rc(2) k(3) show ?thesis by (simp add: nth_append Suc_diff_le)
    qed
  next
    case Exit with f show ?thesis by simp
  qed
qed


lemma modelLoop_nonempty: "modelLoop p (m # ms) le = (res, calls) \<Longrightarrow> calls \<noteq> []"
proof -
  assume a: "modelLoop p (m # ms) le = (res, calls)"
  obtain fin cs where b: "attemptLoop p m 1 = (fin, cs)" by (cases "attemptLoop p m 1")
  from attemptLoop_block[OF b] have "cs \<noteq> []" by auto
  with a b show ?thesis by (cases fin) (auto simp: split_beta)
qed

text \<open>
  C1. For every sequence of per-call outcomes, with \<open>calls\<close> the calls that
  \<open>generateWithFallback\<close> makes and \<open>res\<close> what it returns or throws:
  \<^item> the models are called in the order of \<open>MODELS\<close>, each called model between one and three
    times with attempt numbers 1, 2, 3, and when the engine throws every model of the list has
    been called;
  \<^item> every call but the last one failed, and the call after a failed call is the next attempt
    on the same model exactly when the error was transient and fewer than three attempts had
    been made, and otherwise the first attempt on the next model;
  \<^item> a call that returns is the last call, and its result is what the engine returns;
  \<^item> at least one call is made, and the outcome of the last call decides the result: its
    result when it returned, and otherwise the error \<open>All models failed. Last error: ...\<close>
    carrying the message of that last failure, which was either not transient or a third attempt.
\<close>

theorem C1_fallback_engine:
  assumes "generateWithFallback provider = (res, calls)"
  shows "(\<exists>ks. length ks \<le> length MODELS \<and> list_all (\<lambda>k. 1 \<le> k \<and> k \<le> 3) ks
            \<and> calls = runShape MODELS ks \<and> (succeeded res \<or> length ks = length MODELS))
       \<and> (\<forall>i. Suc i < length calls \<longrightarrow>
              (\<exists>e. provider i = Threw e \<and> followsFailure e (calls ! i) (calls ! Suc i)))
       \<and> (\<forall>i r. i < length calls \<longrightarrow> provider i = Returned r \<longrightarrow>
              Suc i = length calls \<and> res = Inr r)
       \<and> calls \<noteq> []
       \<and> (case provider (length calls - 1) of
             Returned r \<Rightarrow> res = Inr r
           | Threw e \<Rightarrow> res = Inl (Error (u ''All models failed. Last error: '' @ message e))
                        \<and> (transient e \<longrightarrow> snd (last calls) = 3))"
proof -
  from assms have m: "modelLoop provider MODELS None = (res, calls)"
    by (simp add: generateWithFallback_def)
  have ne: "calls \<noteq> []"
    using m modelLoop_nonempty unfolding MODELS_def by blast
  have steps: "\<forall>i. Suc i < length calls \<longrightarrow>
              (\<exists>e. provider i = Threw e \<and> followsFailure e (calls ! i) (calls ! Suc i))"
    using modelLoop_steps[OF m] by blast
  have lst: "(case provider (length calls - 1) of
             Returned r \<Rightarrow> res = Inr r
           | Threw e \<Rightarrow> res = Inl (Error (u ''All models failed. Last error: '' @ message e))
                        \<and> (transient e \<longrightarrow> snd (last calls) = 3))"
    using modelLoop_last[OF m] ne by simp
  have first: "\<forall>i r. i < length calls \<longrightarrow> provider i = Returned r \<longrightarrow>
              Suc i = length calls \<and> res = Inr r"
  proof (intro allI impI)
    fix i r assume i: "i < length calls" and r: "provider i = Returned r"
    have "\<not> Suc i < length calls"
    proof
      assume "Suc i < length calls"
      with steps obtain e where "provider i = Threw e" by blast
      with r show False by simp
    qed
    with i have "Suc i = length calls" by simp
    then have "length calls - 1 = i" by simp
    with lst r have "res = Inr r" by simp
    with \<open>Suc i = length calls\<close> show "Suc i = length calls \<and> res = Inr r" by simp
  qed
  from modelLoop_shape[OF m] ne steps first lst show ?thesis by blast
qed

theorem C1_fallback_engine_witness:
  "generateWithFallback
     (\<lambda>k::nat. if k < 2 then Threw \<lparr>message = u ''[503] The model is overloaded'', status = None\<rparr>
          else Returned (5::nat))
   = (Inr 5, [(u ''gemini-1.5-flash-latest'', 1), (u ''gemini-1.5-flash-latest'', 2),
              (u ''gemini-1.5-flash-latest'', 3)])
   \<and> (\<exists>e. (if (0::nat) < 2
             then Threw \<lparr>message = u ''[503] The model is overloaded'', status = None\<rparr>
             else Returned (5::nat)) = Threw e
          \<and> followsFailure e (u ''gemini-1.5-flash-latest'', 1) (u ''gemini-1.5-flash-latest'', 2))"
proof -
  let ?P = "\<lambda>k::nat. if k < 2
                then Threw \<lparr>message = u ''[503] The model is overloaded'', status = None\<rparr>
                else Returned (5::nat)"
  let ?C = "[(u ''gemini-1.5-flash-latest'', 1::nat), (u ''gemini-1.5-flash-latest'', 2),
             (u ''gemini-1.5-flash-latest'', 3)]"
  have ev: "generateWithFallback ?P = (Inr 5, ?C)"
    by (simp add: generateWithFallback_def MODELS_def isOverloaded_def isQuotaError_def
        startsWith_def u_def)
  from C1_fallback_engine [OF ev]
  have "Suc 0 < length ?C \<longrightarrow>
          (\<exists>e. ?P 0 = Threw e \<and> followsFailure e (?C ! 0) (?C ! Suc 0))"
    by blast
  then have "\<exists>e. ?P 0 = Threw e \<and> followsFailure e (?C ! 0) (?C ! Suc 0)"
    by simp
  with ev show ?thesis by simp
qed

section \<open>Properties of the scheduler\<close>

text \<open>
  The stream is the chunks of the returning calls, in order; the log is the errors of the
  throwing ones.
\<close>

lemma makeBatches_3_1_0:
  "makeBatches 3 1 0 =
     [\<lparr>easyCount = 2, mediumCount = 0, hardCount = 0\<rparr>,
      \<lparr>easyCount = 1, mediumCount = 1, hardCount = 0\<rparr>]"
  by (simp add: makeBatches_def BATCH_SIZE_def Let_def)

lemma processBatches_chunks:
  "fst (processBatches gen tot bs completed s)
     = chunksOf tot completed (batchOutcomes gen bs s)"
proof (induction bs arbitrary: completed s)
  case Nil
  show ?case by simp
next
  case (Cons b bs)
  obtain r s' where g: "gen s b = (r, s')" by (cases "gen s b")
  show ?case
  proof (cases r)
    case (Inl err)
    with g Cons.IH [of completed s'] show ?thesis
      by (simp add: split_beta)
  next
    case (Inr mcqs)
    with g Cons.IH [of "completed + length mcqs" s'] show ?thesis
      by (simp add: split_beta Let_def)
  qed
qed

lemma processBatches_logged:
  "fst (snd (processBatches gen tot bs completed s))
     = errorsOf (batchOutcomes gen bs s)"
proof (induction bs arbitrary: completed s)
  case Nil
  show ?case by simp
next
  case (Cons b bs)
  obtain r s' where g: "gen s b = (r, s')" by (cases "gen s b")
  show ?case
  proof (cases r)
    case (Inl err)
    with g Cons.IH [of completed s'] show ?thesis
      by (simp add: split_beta)
  next
    case (Inr mcqs)
    with g Cons.IH [of "completed + length mcqs" s'] show ?thesis
      by (simp add: split_beta Let_def)
  qed
qed

lemma length_batchOutcomes: "length (batchOutcomes gen bs s) = length bs"
  by (induction bs arbitrary: s) auto

lemma chunksOf_nonTerminal: "list_all nonTerminal (chunksOf tot completed rs)"
  by (induction tot completed rs rule: chunksOf.induct) auto

lemma length_chunksOf:
  "length (chunksOf tot completed rs) = length (filter succeeded rs)"
  by (induction tot completed rs rule: chunksOf.induct) auto

lemma chunksOf_records:
  "concat (map (\<lambda>c. case c of Chunk mcqs t cur \<Rightarrow> mcqs | Completed \<Rightarrow> [])
             (chunksOf tot completed rs))
     = concat (map (\<lambda>r. case r of Inr mcqs \<Rightarrow> mcqs | Inl err \<Rightarrow> []) rs)"
  by (induction tot completed rs rule: chunksOf.induct) auto


text \<open>
  C2. For the request easy = 3, medium = 1, hard = 0 the scheduler builds the batches
  \<open>{easyCount: 2, mediumCount: 0, hardCount: 0}\<close> and
  \<open>{easyCount: 1, mediumCount: 1, hardCount: 0}\<close>, in that order; and when the two
  \<open>generateMCQs\<close> calls (the second starting in the state the first one left) both return,
  the handler writes exactly two content chunks, with the running totals, followed by the one
  terminal chunk, and logs nothing.
\<close>

theorem C2_batches_then_chunks:
  assumes "gen s0 \<lparr>easyCount = 2, mediumCount = 0, hardCount = 0\<rparr> = (Inr m1, s1)"
    and "gen s1 \<lparr>easyCount = 1, mediumCount = 1, hardCount = 0\<rparr> = (Inr m2, s2)"
  shows "makeBatches 3 1 0 =
           [\<lparr>easyCount = 2, mediumCount = 0, hardCount = 0\<rparr>,
            \<lparr>easyCount = 1, mediumCount = 1, hardCount = 0\<rparr>]
         \<and> generateMcqHandler gen \<lparr>easyCount = 3, mediumCount = 1, hardCount = 0\<rparr> s0 =
             ([Chunk m1 4 (length m1), Chunk m2 4 (length m1 + length m2), Completed], [], s2)"
proof -
  have pb: "processBatches gen (3 + 1 + 0)
          [\<lparr>easyCount = 2, mediumCount = 0, hardCount = 0\<rparr>,
           \<lparr>easyCount = 1, mediumCount = 1, hardCount = 0\<rparr>] 0 s0
        = ([Chunk m1 4 (length m1), Chunk m2 4 (length m1 + length m2)], [], s2)"
    using assms by (simp add: Let_def)
  have "generateMcqHandler gen \<lparr>easyCount = 3, mediumCount = 1, hardCount = 0\<rparr> s0
        = (case processBatches gen (3 + 1 + 0) (makeBatches 3 1 0) 0 s0 of
             (out, logged, s') \<Rightarrow> (out @ [Completed], logged, s'))"
    by (simp only: generateMcqHandler_def Let_def batch.simps)
  also have "\<dots> = ([Chunk m1 4 (length m1), Chunk m2 4 (length m1 + length m2), Completed],
                    [], s2)"
    by (simp only: makeBatches_3_1_0 pb prod.case append.simps)
  finally show ?thesis
    by (simp only: makeBatches_3_1_0 simp_thms)
qed

theorem C2_batches_then_chunks_witness:
  "makeBatches 3 1 0 =
     [\<lparr>easyCount = 2, mediumCount = 0, hardCount = 0\<rparr>,
      \<lparr>easyCount = 1, mediumCount = 1, hardCount = 0\<rparr>]
   \<and> generateMcqHandler (\<lambda>s b. (Inr (replicate (easyCount b) s) :: unit + nat list, Suc s))
         \<lparr>easyCount = 3, mediumCount = 1, hardCount = 0\<rparr> 7 =
       ([Chunk [7, 7] 4 2, Chunk [8] 4 3, Completed], [], 9)"
  using C2_batches_then_chunks
    [of "\<lambda>s b. (Inr (replicate (easyCount b) s) :: unit + nat list, Suc s)" 7 "[7, 7]" 8 "[8]" 9]
  by (simp add: numeral_2_eq_2)

text \<open>
  C9. Whatever the \<open>generateMCQs\<close> calls do, the handler makes one call per batch, in order
  (\<open>batchOutcomes\<close> has one entry per batch); a call that throws adds its error to the log
  and nothing to the stream; a call that returns adds one content chunk with its records;
  and the stream always ends with the terminal chunk, which is the only terminal chunk.
\<close>

theorem C9_batch_failure_swallowed:
  "(let batches = makeBatches (easyCount v) (mediumCount v) (hardCount v);
        tot = easyCount v + mediumCount v + hardCount v;
        rs = batchOutcomes gen batches s;
        (written, logged, s') = generateMcqHandler gen v s
    in length rs = length batches
       \<and> written = chunksOf tot 0 rs @ [Completed]
       \<and> logged = errorsOf rs
       \<and> length written = length (filter succeeded rs) + 1
       \<and> list_all nonTerminal (butlast written)
       \<and> last written = Completed)"
  by (simp add: generateMcqHandler_def Let_def split_beta processBatches_chunks
      processBatches_logged length_batchOutcomes chunksOf_nonTerminal length_chunksOf)

theorem C9_batch_failure_swallowed_witness:
  "generateMcqHandler
     (\<lambda>s b. if s = (0::nat) then (Inl ''boom'', Suc s) else (Inr [s], Suc s))
     \<lparr>easyCount = 3, mediumCount = 1, hardCount = 0\<rparr> 0
   = ([Chunk [1] 4 1, Completed], [''boom''], 2)
   \<and> last (fst (generateMcqHandler
                  (\<lambda>s b. if s = (0::nat) then (Inl ''boom'', Suc s) else (Inr [s], Suc s))
                  \<lparr>easyCount = 3, mediumCount = 1, hardCount = 0\<rparr> 0))
       = Completed"
proof -
  let ?G = "\<lambda>(s::nat) (b::batch). if s = 0 then (Inl ''boom'', Suc s) else (Inr [s], Suc s)"
  let ?v = "\<lparr>easyCount = 3, mediumCount = 1, hardCount = 0\<rparr>"
  have ev: "generateMcqHandler ?G ?v 0 = ([Chunk [1] 4 1, Completed], [''boom''], 2)"
    by (simp add: generateMcqHandler_def makeBatches_def BATCH_SIZE_def Let_def)
  from C9_batch_failure_swallowed [of ?v ?G 0]
  have "last (fst (generateMcqHandler ?G ?v 0)) = Completed"
    by (simp add: Let_def split_beta)
  with ev show ?thesis by (simp only: simp_thms)
qed

section \<open>What the two pipelines return\<close>

lemma solve_example:
  \<open>solveMCQs numberToString (\<lambda>k. Returned (u ''[{"q":"a"},7]'')) None
      \<lparr>resultCache = [], callsMade = 0\<rparr>
    = (Inr [JObject [(u ''question'', JString (u ''No question provided'')),
                     (u ''options'', fourSlots (JString []) (JString []) (JString []) (JString [])),
                     (u ''correctAnswer'', JString (u ''A'')),
                     (u ''explanation'', JString [])]],
       \<lparr>resultCache = [], callsMade = 1\<rparr>)\<close>
proof -
  have p: \<open>JSON_parse (cleanJSONResponse (u ''[{"q":"a"},7]''))
             = Some (JArray [JObject [(u ''q'', JString (u ''a''))], JNumber (u ''7'')])\<close>
    by (simp add: json_eval clean_eval)
  have n1: \<open>normalizeMCQ numberToString (JObject [(u ''q'', JString (u ''a''))])
      = Inr (Some (JObject [(u ''question'', JString (u ''No question provided'')),
                     (u ''options'', fourSlots (JString []) (JString []) (JString []) (JString [])),
                     (u ''correctAnswer'', JString (u ''A'')),
                     (u ''explanation'', JString [])]))\<close>
    by (simp add: norm_eval trim_def isJsWhitespace_def u_def)
  have n2: \<open>normalizeMCQ numberToString (JNumber (u ''7'')) = Inr None\<close>
    by (simp add: normalizeMCQ_def)
  have s: \<open>parseSolved numberToString (u ''[{"q":"a"},7]'')
      = Inr [JObject [(u ''question'', JString (u ''No question provided'')),
                     (u ''options'', fourSlots (JString []) (JString []) (JString []) (JString [])),
                     (u ''correctAnswer'', JString (u ''A'')),
                     (u ''explanation'', JString [])]]\<close>
    unfolding parseSolved_def p by (simp add: n1 n2 List.map_filter_simps)
  have f: \<open>generateWithFallback (\<lambda>k. Returned (u ''[{"q":"a"},7]'') :: ustring outcome)
             = (Inr (u ''[{"q":"a"},7]''), [(u ''gemini-1.5-flash-latest'', 1)])\<close>
    by (simp add: generateWithFallback_def MODELS_def)
  show ?thesis by (simp add: solveMCQs_def f s)
qed

text \<open>
  C10. When \<open>generateMCQs\<close> returns records, either it found them in the cache under the
  request's key and returns them as stored, or they are exactly the entries of the parsed
  array that pass \<open>mcq && typeof mcq === 'object'\<close> (JSON objects and arrays, see
  \<open>isValidMcq_iff\<close>), unchanged and in order, and the same list is what is stored under the
  key when there is no file and the list is not empty. The stream handler writes the lists that
  \<open>generateMCQs\<close> returns, one chunk per returning call. When \<open>solveMCQs\<close> returns records,
  they are the results of \<open>normalizeMCQ\<close> on the entries of the parsed array (or of the array
  found under a wrapper key), with the \<open>null\<close> results dropped.
\<close>

theorem C10_generation_returns_parsed_records:
  assumes "generateMCQs sha256hex provider studyMaterial difficultyCounts includeExplanation file s
             = (Inr records, s')"
    and "K = sha256hex (cacheKeyText studyMaterial difficultyCounts includeExplanation)"
    and "solveMCQs numberToString provider2 file2 t = (Inr solved, t')"
  shows "((file = None \<and> map_of (resultCache s) K = Some records \<and> s' = s)
          \<or> (\<exists>text0 calls xs.
                generateWithFallback (\<lambda>k. provider (callsMade s + k)) = (Inr text0, calls)
              \<and> JSON_parse (cleanJSONResponse text0) = Some (JArray xs)
              \<and> records = filter isValidMcq xs
              \<and> (file = None \<and> records \<noteq> [] \<longrightarrow> map_of (resultCache s') K = Some records)))
       \<and> fst (generateMcqRoute sha256hex provider studyMaterial includeExplanation file v s0)
           = chunksOf (easyCount v + mediumCount v + hardCount v) 0
               (batchOutcomes
                  (\<lambda>st b. generateMCQs sha256hex provider studyMaterial b includeExplanation file st)
                  (makeBatches (easyCount v) (mediumCount v) (hardCount v)) s0)
             @ [Completed]
       \<and> (\<exists>text0 calls parsed xs normalized.
             generateWithFallback (\<lambda>k. provider2 (callsMade t + k)) = (Inr text0, calls)
           \<and> JSON_parse (cleanJSONResponse text0) = Some parsed
           \<and> (if isArray parsed then parsed else probeKeys possibleArrays parsed) = JArray xs
           \<and> map (normalizeMCQ numberToString) xs = map Inr normalized
           \<and> solved = List.map_filter (\<lambda>mcq. mcq) normalized)"
proof -
  note a = generateMCQs_returns [OF assms(1,2)]
  have b: "fst (generateMcqRoute sha256hex provider studyMaterial includeExplanation file v s0)
           = chunksOf (easyCount v + mediumCount v + hardCount v) 0
               (batchOutcomes
                  (\<lambda>st b. generateMCQs sha256hex provider studyMaterial b includeExplanation file st)
                  (makeBatches (easyCount v) (mediumCount v) (hardCount v)) s0)
             @ [Completed]"
    by (simp add: generateMcqRoute_def generateMcqHandler_def Let_def split_beta
        processBatches_chunks)
  note c = solveMCQs_returns [OF assms(3)]
  from a b c show ?thesis by (intro conjI)
qed

theorem C10_generation_returns_parsed_records_witness:
  \<open>generateMCQs (\<lambda>t. t) (\<lambda>k. Returned (u ''[{"q":"a"},7]'')) (u ''m'')
      \<lparr>easyCount = 1, mediumCount = 0, hardCount = 0\<rparr> False None
      \<lparr>resultCache = [], callsMade = 0\<rparr>
    = (Inr [JObject [(u ''q'', JString (u ''a''))]],
       \<lparr>resultCache = [(u ''m|1|0|0|false'', [JObject [(u ''q'', JString (u ''a''))]])],
        callsMade = 1\<rparr>)
   \<and> solveMCQs (\<lambda>n. n) (\<lambda>k. Returned (u ''[{"q":"a"},7]'')) None
        \<lparr>resultCache = [], callsMade = 0\<rparr>
      = (Inr [JObject [(u ''question'', JString (u ''No question provided'')),
                       (u ''options'', fourSlots (JString []) (JString []) (JString []) (JString [])),
                       (u ''correctAnswer'', JString (u ''A'')),
                       (u ''explanation'', JString [])]],
         \<lparr>resultCache = [], callsMade = 1\<rparr>)
   \<and> (\<exists>xs. JSON_parse (cleanJSONResponse (u ''[{"q":"a"},7]'')) = Some (JArray xs)
           \<and> [JObject [(u ''q'', JString (u ''a''))]] = filter isValidMcq xs)\<close>
proof -
  have k: "u ''m|1|0|0|false''
             = (\<lambda>t. t) (cacheKeyText (u ''m'') \<lparr>easyCount = 1, mediumCount = 0, hardCount = 0\<rparr> False)"
    by (simp add: cacheKeyText_def showNat.simps u_def)
  have f: \<open>generateWithFallback (\<lambda>k. Returned (u ''[{"q":"a"},7]'') :: ustring outcome)
             = (Inr (u ''[{"q":"a"},7]''), [(u ''gemini-1.5-flash-latest'', 1)])\<close>
    by (simp add: generateWithFallback_def MODELS_def)
  from C10_generation_returns_parsed_records
         [OF gen_example k solve_example [of "\<lambda>n. n"]]
  have "\<exists>text0 calls xs.
          generateWithFallback (\<lambda>k. Returned (u ''[{\"q\":\"a\"},7]'') :: ustring outcome)
            = (Inr text0, calls)
        \<and> JSON_parse (cleanJSONResponse text0) = Some (JArray xs)
        \<and> [JObject [(u ''q'', JString (u ''a''))]] = filter isValidMcq xs"
    by simp
  then have "\<exists>xs. JSON_parse (cleanJSONResponse (u ''[{\"q\":\"a\"},7]'')) = Some (JArray xs)
           \<and> [JObject [(u ''q'', JString (u ''a''))]] = filter isValidMcq xs"
    unfolding f by blast
  with gen_example solve_example [of "\<lambda>n. n"] show ?thesis by blast
qed

end
